theory Spec2Isabelle
  imports Main "HOL-Library.AList" "HOL-Library.Log_Nat" "HOL-Library.Word"
begin

section \<open>JavaScript values used by the client\<close>

text \<open>
  A browser \<^verbatim>\<open>File\<close>: its name, byte size, declared media type, modification
  timestamp and contents. The fields \<open>fsize\<close> and \<open>ftype\<close> are the source's
  \<^verbatim>\<open>size\<close> and \<^verbatim>\<open>type\<close>.
\<close>

record jsfile =
  name :: string
  fsize :: nat
  ftype :: string
  lastModified :: int
  blob :: "nat list"

text \<open>The decimal text JavaScript produces when a non-negative integer is
  concatenated to a string or interpolated into a template.\<close>

fun string_of_nat :: "nat \<Rightarrow> string" where
  "string_of_nat n =
     (if n < 10 then [''0123456789'' ! n]
      else string_of_nat (n div 10) @ [''0123456789'' ! (n mod 10)])"

declare string_of_nat.simps [simp del]

text \<open>\<^verbatim>\<open>Array.prototype.join\<close>.\<close>

fun join :: "string \<Rightarrow> string list \<Rightarrow> string" where
  "join sep [] = []"
| "join sep [x] = x"
| "join sep (x # y # ys) = x @ sep @ join sep (y # ys)"

text \<open>\<^verbatim>\<open>String.prototype.trim\<close> on the ASCII white space and line terminator
  characters (tab, line feed, vertical tab, form feed, carriage return, space). The
  non-ASCII white space code points JavaScript also strips are outside \<open>char\<close>.\<close>

definition isWhiteSpace :: "char \<Rightarrow> bool" where
  "isWhiteSpace c \<longleftrightarrow> c \<in> set [CHR 0x09, CHR 0x0A, CHR 0x0B, CHR 0x0C, CHR 0x0D, CHR '' '']"

definition trim :: "string \<Rightarrow> string" where
  "trim s = rev (dropWhile isWhiteSpace (rev (dropWhile isWhiteSpace s)))"

text \<open>\<^verbatim>\<open>String.prototype.startsWith\<close> and \<^verbatim>\<open>endsWith\<close>.\<close>

definition startsWith :: "string \<Rightarrow> string \<Rightarrow> bool" where
  "startsWith s p \<longleftrightarrow> take (length p) s = p"

definition endsWith :: "string \<Rightarrow> string \<Rightarrow> bool" where
  "endsWith s p \<longleftrightarrow> length p \<le> length s \<and> drop (length s - length p) s = p"

section \<open>UploadZone: accepting image files and reference rows\<close>

definition ALLOWED_IMAGE_TYPES :: "string list" where
  "ALLOWED_IMAGE_TYPES = [''image/jpeg'', ''image/png'', ''image/webp'']"

definition MAX_FILES :: nat where
  "MAX_FILES = 300"

definition REQUIRED_CSV_COLUMN :: string where
  "REQUIRED_CSV_COLUMN = ''label_id''"

definition RECOGNIZED_CSV_COLUMNS :: "string list" where
  "RECOGNIZED_CSV_COLUMNS =
     [''label_id'', ''brand_name'', ''class_type'', ''alcohol_content'',
      ''net_contents'', ''producer_name'', ''producer_address'']"

text \<open>
  A parsed CSV row is a JavaScript object with string keys and string values: an
  association list in insertion order. \<open>map_of row col\<close> is \<^verbatim>\<open>row[col]\<close>, with
  \<open>None\<close> for \<^verbatim>\<open>undefined\<close>; \<open>AList.update\<close> is the assignment
  \<^verbatim>\<open>out[col] = v\<close>.
\<close>

type_synonym csvRow = "(string \<times> string) list"

text \<open>
  What \<^verbatim>\<open>Papa.parse(file, {header: true, skipEmptyLines: true, ...})\<close> hands back:
  either the \<^verbatim>\<open>error\<close> callback with a message, or the \<^verbatim>\<open>complete\<close> callback with
  the messages of \<^verbatim>\<open>result.errors\<close> and the rows \<^verbatim>\<open>result.data\<close>. The parser is an
  external library; its outcome is an input of the model.
\<close>

datatype papaOutcome =
    PapaComplete (errors: "string list") (data: "csvRow list")
  | PapaError string

record uploadZone =
  files :: "jsfile list"
  csvRows :: "csvRow list option"
  csvError :: "string option"

text \<open>The body of the \<^verbatim>\<open>for (const col of RECOGNIZED_CSV_COLUMNS)\<close> loop of
  \<^verbatim>\<open>handleCsvFile\<close>, with \<open>out\<close> the object under construction.\<close>

fun cleanCols :: "string list \<Rightarrow> csvRow \<Rightarrow> csvRow \<Rightarrow> csvRow" where
  "cleanCols [] row out = out"
| "cleanCols (col # cols) row out =
     cleanCols cols row
       (case map_of row col of
          None \<Rightarrow> out
        | Some v \<Rightarrow> if v \<noteq> [] then AList.update col (trim v) out else out)"

definition cleanRow :: "csvRow \<Rightarrow> csvRow" where
  "cleanRow row = cleanCols RECOGNIZED_CSV_COLUMNS row []"

text \<open>\<^verbatim>\<open>(row) => row.label_id\<close> as a filter predicate: the value is present and
  not the empty string.\<close>

definition hasLabelId :: "csvRow \<Rightarrow> bool" where
  "hasLabelId row \<longleftrightarrow> (case map_of row ''label_id'' of None \<Rightarrow> False | Some v \<Rightarrow> v \<noteq> [])"

definition cleaned :: "csvRow list \<Rightarrow> csvRow list" where
  "cleaned rows = filter hasLabelId (map cleanRow rows)"

definition handleCsvFile :: "papaOutcome \<Rightarrow> uploadZone \<Rightarrow> uploadZone" where
  "handleCsvFile outcome z =
     (let z0 = z\<lparr>csvError := None\<rparr> in
      case outcome of
        PapaError msg \<Rightarrow> z0\<lparr>csvError := Some (''Failed to parse CSV: '' @ msg)\<rparr>
      | PapaComplete errs rows \<Rightarrow>
          if length errs > 0 then z0\<lparr>csvError := Some (''CSV parse error: '' @ hd errs)\<rparr>
          else if length rows = 0 then z0\<lparr>csvError := Some ''CSV file is empty.''\<rparr>
          else
            let columns = map fst (hd rows) in
            if REQUIRED_CSV_COLUMN \<notin> set columns then
              z0\<lparr>csvError := Some
                (''Missing required column '' @ [CHR 0x22] @ REQUIRED_CSV_COLUMN @ [CHR 0x22]
                 @ ''. Found columns: '' @ join '', '' columns @ ''. ''
                 @ ''Expected: '' @ join '', '' RECOGNIZED_CSV_COLUMNS)\<rparr>
            else if length rows > MAX_FILES then
              z0\<lparr>csvError := Some
                (''CSV has '' @ string_of_nat (length rows) @ '' rows but maximum is ''
                 @ string_of_nat MAX_FILES @ ''. Please reduce the number of rows.'')\<rparr>
            else z0\<lparr>csvRows := Some (cleaned rows)\<rparr>)"

text \<open>The key \<^verbatim>\<open>f.name + f.size\<close> under which \<^verbatim>\<open>addFiles\<close> recognises a file
  that is already accepted.\<close>

definition fileKey :: "jsfile \<Rightarrow> string" where
  "fileKey f = name f @ string_of_nat (fsize f)"

definition deduped :: "jsfile list \<Rightarrow> jsfile list \<Rightarrow> jsfile list" where
  "deduped prev images = filter (\<lambda>f. fileKey f \<notin> set (map fileKey prev)) images"

text \<open>The updater passed to \<^verbatim>\<open>setFiles\<close>.\<close>

definition mergeFiles :: "jsfile list \<Rightarrow> jsfile list \<Rightarrow> jsfile list" where
  "mergeFiles images prev =
     (let merged = prev @ deduped prev images in
      if length merged > MAX_FILES then prev else merged)"

text \<open>\<^verbatim>\<open>addFiles(fileList)\<close>. \<open>papa\<close> gives the parser's outcome for the CSV file
  found in the list, if there is one.\<close>

definition addFiles :: "(jsfile \<Rightarrow> papaOutcome) \<Rightarrow> jsfile list \<Rightarrow> uploadZone \<Rightarrow> uploadZone" where
  "addFiles papa fileList z =
     (let z1 = (case find (\<lambda>f. endsWith (name f) ''.csv'' \<or> ftype f = ''text/csv'') fileList of
                  Some csvFile \<Rightarrow> handleCsvFile (papa csvFile) z
                | None \<Rightarrow> z);
          images = filter (\<lambda>f. ftype f \<in> set ALLOWED_IMAGE_TYPES) fileList
      in if length images = 0 then z1
         else z1\<lparr>files := mergeFiles images (files z1)\<rparr>)"

section \<open>IEEE double arithmetic of the image preprocessor\<close>

text \<open>
  JavaScript numbers are IEEE 754 doubles. \<open>fl64 x\<close> is the double nearest to the
  rational \<open>x\<close> (round to nearest, ties to even, 53 significant bits, gradual underflow
  below \<open>2 powi (- 1022)\<close>); every arithmetic operator of the language returns \<open>fl64\<close> of
  the exact result. Overflow to infinity is not modelled: the numbers of this program stay
  far below \<open>2 powi 1024\<close>. Integers below \<open>2 ^ 53\<close> are doubles themselves.
\<close>

definition roundHalfEven :: "rat \<Rightarrow> int" where
  "roundHalfEven x =
     (let n = \<lfloor>x\<rfloor>; d = x - of_int n in
      if d < 1/2 then n else if d > 1/2 then n + 1 else if even n then n else n + 1)"

text \<open>For \<open>x > 0\<close>, the exponent \<open>e\<close> with \<open>2 powi e \<le> x < 2 powi (e + 1)\<close>.\<close>

definition ilog2 :: "rat \<Rightarrow> int" where
  "ilog2 x = (let (a, b) = quotient_of x; e = bitlen a - bitlen b in
              if x < 2 powi e then e - 1 else e)"

definition fl64 :: "rat \<Rightarrow> rat" where
  "fl64 x =
     (if x = 0 then 0
      else let e = max (ilog2 \<bar>x\<bar>) (- 1022) in
        sgn x * of_int (roundHalfEven (\<bar>x\<bar> * 2 powi (52 - e))) * 2 powi (e - 52))"

text \<open>\<^verbatim>\<open>Math.round\<close>: the nearest integer, a tie going up.\<close>

definition Math_round :: "rat \<Rightarrow> int" where
  "Math_round x = \<lfloor>x + 1/2\<rfloor>"

section \<open>ImagePreprocessor: compressImage\<close>

definition MAX_DIMENSION :: nat where
  "MAX_DIMENSION = 1600"

text \<open>The literal \<^verbatim>\<open>0.85\<close>.\<close>

definition JPEG_QUALITY :: rat where
  "JPEG_QUALITY = 85 / 100"

text \<open>
  What the browser does with the file is an input of the model: loading it into an
  \<^verbatim>\<open>Image\<close> either fires \<^verbatim>\<open>onerror\<close> or fires \<^verbatim>\<open>onload\<close> with the intrinsic
  width and height (the DOM's \<^verbatim>\<open>unsigned long\<close>); \<^verbatim>\<open>canvas.toBlob\<close> on the drawn canvas of the
  given width and height, for the given media type and quality, calls back with the
  encoded bytes or with \<^verbatim>\<open>null\<close>. The other DOM calls of \<^verbatim>\<open>onload\<close>
  (\<^verbatim>\<open>createElement\<close>, \<^verbatim>\<open>getContext\<close>, \<^verbatim>\<open>drawImage\<close>) are taken to return normally.
\<close>

datatype decodeOutcome = LoadError | Loaded "32 word" "32 word"

record browser =
  decode :: "jsfile \<Rightarrow> decodeOutcome"
  toBlob :: "jsfile \<Rightarrow> int \<Rightarrow> int \<Rightarrow> string \<Rightarrow> rat \<Rightarrow> nat list option"

text \<open>How a promise settles.\<close>

datatype 'a settled = Resolved 'a | Rejected string

text \<open>The canvas dimensions computed in \<^verbatim>\<open>img.onload\<close>: \<open>scaled\<close> is the arithmetic on
  the two numbers, \<open>scaleDims\<close> applies it to \<^verbatim>\<open>img.width\<close> and \<^verbatim>\<open>img.height\<close>.\<close>

definition scaled :: "nat \<Rightarrow> nat \<Rightarrow> int \<times> int" where
  "scaled w h =
     (let width = rat_of_nat w; height = rat_of_nat h;
          longest = max width height
      in if longest > of_nat MAX_DIMENSION then
           let scale = fl64 (of_nat MAX_DIMENSION / longest) in
           (Math_round (fl64 (width * scale)), Math_round (fl64 (height * scale)))
         else (int w, int h))"

definition scaleDims :: "32 word \<Rightarrow> 32 word \<Rightarrow> int \<times> int" where
  "scaleDims w h = scaled (unat w) (unat h)"

text \<open>\<^verbatim>\<open>file.name.replace(/\.[^.]+$/, '')\<close>: a final dot followed by at least one
  character other than a dot is cut off, together with what follows it.\<close>

definition stem :: "string \<Rightarrow> string" where
  "stem s =
     (let ext = takeWhile (\<lambda>c. c \<noteq> CHR ''.'') (rev s);
          rest = dropWhile (\<lambda>c. c \<noteq> CHR ''.'') (rev s)
      in if ext \<noteq> [] \<and> rest \<noteq> [] then rev (tl rest) else s)"

definition compressImage :: "browser \<Rightarrow> jsfile \<Rightarrow> jsfile settled" where
  "compressImage env file =
     (if \<not> startsWith (ftype file) ''image/'' then Resolved file
      else case decode env file of
        LoadError \<Rightarrow> Resolved file
      | Loaded w h \<Rightarrow>
          (let (width, height) = scaleDims w h in
           case toBlob env file width height ''image/jpeg'' JPEG_QUALITY of
             None \<Rightarrow> Resolved file
           | Some b \<Rightarrow>
               Resolved \<lparr>name = stem (name file) @ ''.jpg'', fsize = length b,
                         ftype = ''image/jpeg'', lastModified = lastModified file,
                         blob = b\<rparr>))"

section \<open>UploadScheduler: uploadAllChunked\<close>

definition CHUNK_SIZE :: nat where
  "CHUNK_SIZE = 3"

definition MAX_CONCURRENT :: nat where
  "MAX_CONCURRENT = 4"

text \<open>A chunk: files paired with their client indices.\<close>

type_synonym chunk = "(jsfile \<times> nat) list"

text \<open>The partition loop \<^verbatim>\<open>for (let i = 0; i < files.length; i += CHUNK_SIZE)\<close>, from
  index \<open>i\<close> on.\<close>

function mkChunks :: "nat \<Rightarrow> jsfile list \<Rightarrow> chunk list" where
  "mkChunks i fs =
     (if i < length fs then
        map (\<lambda>j. (fs ! j, j)) [i ..< min (i + CHUNK_SIZE) (length fs)]
          # mkChunks (i + CHUNK_SIZE) fs
      else [])"
  by pat_completeness auto
termination
  by (relation "measure (\<lambda>(i, fs). length fs - i)") (auto simp: CHUNK_SIZE_def)

declare mkChunks.simps [simp del]

text \<open>
  The network is an input of the model: for each chunk index, whether its upload request
  fails and with which message (\<open>None\<close> is success); which of the outstanding requests
  settles first, as a position in the list handed to \<^verbatim>\<open>Promise.race\<close>; and whether
  the \<^verbatim>\<open>completeJob\<close> request fails.
\<close>

record network =
  uploadOutcome :: "nat \<Rightarrow> string option"
  race :: "nat list \<Rightarrow> nat"
  completeOutcome :: "string option"

text \<open>What the scheduler does, in order: it issues a chunk upload, observes that one has
  settled, writes a failure to the console, issues the completion request.\<close>

datatype action =
    UploadChunk string nat chunk
  | Settled nat "string option"
  | LogError nat string
  | CompleteJob string

text \<open>The loop variables \<^verbatim>\<open>chunkIndex\<close> and \<^verbatim>\<open>active\<close> (each promise named by its
  \<^verbatim>\<open>_idx\<close>), and the actions so far.\<close>

record sched =
  chunkIndex :: nat
  active :: "nat list"
  trace :: "action list"

text \<open>The inner loop
  \<^verbatim>\<open>while (active.length < MAX_CONCURRENT && chunkIndex < chunks.length)\<close>.\<close>

function topUp :: "string \<Rightarrow> chunk list \<Rightarrow> sched \<Rightarrow> sched" where
  "topUp jobId chunks s =
     (if length (active s) < MAX_CONCURRENT \<and> chunkIndex s < length chunks then
        topUp jobId chunks
          (s\<lparr>chunkIndex := chunkIndex s + 1,
             active := active s @ [chunkIndex s],
             trace := trace s @ [UploadChunk jobId (chunkIndex s) (chunks ! chunkIndex s)]\<rparr>)
      else s)"
  by pat_completeness auto
termination
  by (relation "measure (\<lambda>(jobId, chunks, s). length chunks - chunkIndex s)") auto

declare topUp.simps [simp del]

text \<open>\<^verbatim>\<open>await Promise.race(active)\<close>, the filter that drops the settled promise, and the
  console message for a failed chunk.\<close>

definition settle :: "network \<Rightarrow> sched \<Rightarrow> sched" where
  "settle net s =
     (let idx = active s ! (race net (active s) mod length (active s));
          res = uploadOutcome net idx
      in s\<lparr>active := filter (\<lambda>p. p \<noteq> idx) (active s),
            trace := trace s @ Settled idx res
                     # (case res of Some err \<Rightarrow> [LogError idx err] | None \<Rightarrow> [])\<rparr>)"

definition schedMeasure :: "chunk list \<Rightarrow> sched \<Rightarrow> nat" where
  "schedMeasure chunks s = 2 * (length chunks - chunkIndex s) + length (active s)"

lemma topUp_measure: "schedMeasure chunks (topUp jobId chunks s) \<le> schedMeasure chunks s"
proof (induction jobId chunks s rule: topUp.induct)
  case (1 jobId chunks s)
  show ?case
  proof (cases "length (active s) < MAX_CONCURRENT \<and> chunkIndex s < length chunks")
    case True
    with 1 show ?thesis
      by (subst topUp.simps) (auto simp: schedMeasure_def)
  next
    case False
    then show ?thesis
      by (subst topUp.simps) auto
  qed
qed

lemma topUp_active_nonempty:
  "chunkIndex s < length chunks \<or> active s \<noteq> [] \<Longrightarrow> active (topUp jobId chunks s) \<noteq> []"
proof (induction jobId chunks s rule: topUp.induct)
  case (1 jobId chunks s)
  show ?case
  proof (cases "length (active s) < MAX_CONCURRENT \<and> chunkIndex s < length chunks")
    case True
    with 1 show ?thesis
      by (subst topUp.simps) auto
  next
    case False
    with "1.prems" show ?thesis
      by (subst topUp.simps) (auto simp: MAX_CONCURRENT_def)
  qed
qed

lemma settle_measure:
  "active s \<noteq> [] \<Longrightarrow> schedMeasure chunks (settle net s) < schedMeasure chunks s"
proof -
  assume ne: "active s \<noteq> []"
  let ?idx = "active s ! (race net (active s) mod length (active s))"
  have "?idx \<in> set (active s)"
    using ne by simp
  then have "length (filter (\<lambda>p. p \<noteq> ?idx) (active s)) < length (active s)"
    by (simp add: length_filter_less)
  then show ?thesis
    by (simp add: settle_def schedMeasure_def Let_def)
qed

text \<open>The outer loop \<^verbatim>\<open>while (chunkIndex < chunks.length || active.length > 0)\<close>.\<close>

function uploadLoop :: "network \<Rightarrow> string \<Rightarrow> chunk list \<Rightarrow> sched \<Rightarrow> sched" where
  "uploadLoop net jobId chunks s =
     (if chunkIndex s < length chunks \<or> length (active s) > 0 then
        if length (active (topUp jobId chunks s)) > 0
        then uploadLoop net jobId chunks (settle net (topUp jobId chunks s))
        else uploadLoop net jobId chunks (topUp jobId chunks s)
      else s)"
  by pat_completeness auto
termination
proof (relation "measure (\<lambda>(net, jobId, chunks, s). schedMeasure chunks s)", goal_cases)
  case 1
  show ?case by simp
next
  case (2 net jobId chunks s)
  then have "active (topUp jobId chunks s) \<noteq> []" by simp
  from settle_measure [OF this, of chunks net] topUp_measure [of chunks jobId s]
  show ?case by simp
next
  case (3 net jobId chunks s)
  then have "active (topUp jobId chunks s) \<noteq> []"
    using topUp_active_nonempty [of s chunks jobId] by auto
  with 3 show ?case by simp
qed

declare uploadLoop.simps [simp del]

text \<open>
  \<open>uploadAllChunked\<close> gives the actions of the whole call and how its promise settles:
  it rejects exactly when \<^verbatim>\<open>await completeJob(jobId)\<close> throws.
\<close>

definition uploadAllChunked :: "network \<Rightarrow> string \<Rightarrow> jsfile list \<Rightarrow> action list \<times> unit settled" where
  "uploadAllChunked net jobId fs =
     (let chunks = mkChunks 0 fs;
          s = uploadLoop net jobId chunks \<lparr>chunkIndex = 0, active = [], trace = []\<rparr>
      in (trace s @ [CompleteJob jobId],
          case completeOutcome net of None \<Rightarrow> Resolved () | Some msg \<Rightarrow> Rejected msg))"

text \<open>The requests outstanding after a sequence of actions.\<close>

fun inflightStep :: "nat list \<Rightarrow> action \<Rightarrow> nat list" where
  "inflightStep act (UploadChunk jobId idx c) = act @ [idx]"
| "inflightStep act (Settled idx res) = filter (\<lambda>p. p \<noteq> idx) act"
| "inflightStep act (LogError idx err) = act"
| "inflightStep act (CompleteJob jobId) = act"

definition inflight :: "action list \<Rightarrow> nat list" where
  "inflight t = foldl inflightStep [] t"

text \<open>The chunk uploads issued and the chunk indices observed settled, in order.\<close>

fun uploadsOf :: "action list \<Rightarrow> (nat \<times> chunk) list" where
  "uploadsOf [] = []"
| "uploadsOf (UploadChunk jobId idx c # t) = (idx, c) # uploadsOf t"
| "uploadsOf (a # t) = uploadsOf t"

fun settledOf :: "action list \<Rightarrow> nat list" where
  "settledOf [] = []"
| "settledOf (Settled idx res # t) = idx # settledOf t"
| "settledOf (a # t) = settledOf t"

fun isCompleteJob :: "action \<Rightarrow> bool" where
  "isCompleteJob (CompleteJob jobId) = True"
| "isCompleteJob a = False"

text \<open>Properties of a scheduler state that every iteration of the loops keeps: the
  outstanding requests never number more than \<open>k\<close> after any prefix of the actions;
  every failure observed has been written to the console; the requests issued so far are
  the first \<open>chunkIndex\<close> chunks, each once, and each of them is either outstanding or
  settled, never both.\<close>

definition neverExceeds :: "nat \<Rightarrow> action list \<Rightarrow> bool" where
  "neverExceeds k t \<longleftrightarrow> (\<forall>i \<le> length t. length (inflight (take i t)) \<le> k)"

definition logged :: "network \<Rightarrow> action list \<Rightarrow> bool" where
  "logged net t \<longleftrightarrow>
     (\<forall>idx \<in> set (settledOf t). \<forall>err. uploadOutcome net idx = Some err \<longrightarrow> LogError idx err \<in> set t)"

definition schedInv :: "network \<Rightarrow> chunk list \<Rightarrow> sched \<Rightarrow> bool" where
  "schedInv net chunks s \<longleftrightarrow>
     chunkIndex s \<le> length chunks
   \<and> length (active s) \<le> MAX_CONCURRENT
   \<and> distinct (active s)
   \<and> inflight (trace s) = active s
   \<and> uploadsOf (trace s) = zip [0 ..< chunkIndex s] chunks
   \<and> distinct (settledOf (trace s))
   \<and> set (settledOf (trace s)) \<union> set (active s) = {..< chunkIndex s}
   \<and> set (settledOf (trace s)) \<inter> set (active s) = {}
   \<and> neverExceeds MAX_CONCURRENT (trace s)
   \<and> \<not> list_ex isCompleteJob (trace s)"

section \<open>AnalysisController: the useAnalysis hook\<close>

datatype status = Idle | Uploading | Streaming | Complete | Error

text \<open>The parsed \<^verbatim>\<open>data\<close> of a \<^verbatim>\<open>result\<close> or \<^verbatim>\<open>error\<close> stream event is kept
  as it came. A result is stored as it is, a per-item error with \<^verbatim>\<open>_error: true\<close>
  added.\<close>

type_synonym payload = string

datatype resultRecord = Success payload | Failure payload

record donePayload =
  unmatched_csv_rows :: "string list option"

text \<open>
  The state variables and refs of the hook. \<open>results\<close> is the JavaScript \<^verbatim>\<open>Map\<close>, an
  association list in insertion order with \<open>AList.update\<close> for \<^verbatim>\<open>set\<close>;
  \<open>total_files\<close> is the state variable \<^verbatim>\<open>total\<close>; \<open>eventSourceRef\<close> names the
  \<^verbatim>\<open>EventSource\<close> object by the number of the \<^verbatim>\<open>analyze\<close> call that created it.
\<close>

record hook =
  status :: status
  results :: "(int \<times> resultRecord) list"
  total_files :: int
  error :: "string option"
  duplicateIds :: "string list"
  unmatchedCsvRows :: "string list"
  elapsedSeconds :: "int option"
  eventSourceRef :: "nat option"
  startTimeRef :: "rat option"
  donePayloadRef :: "donePayload option"

text \<open>\<^verbatim>\<open>const progress = results.size\<close>.\<close>

definition progress :: "hook \<Rightarrow> nat" where
  "progress h = length (results h)"

text \<open>
  Around the hook: the \<^verbatim>\<open>EventSource\<close> objects created so far and those whose
  \<^verbatim>\<open>readyState\<close> is \<^verbatim>\<open>CLOSED\<close>; for every call of \<^verbatim>\<open>analyze\<close> (numbered from 0)
  the \<^verbatim>\<open>await\<close> at which it is suspended; and the values the dependency array
  \<^verbatim>\<open>[results.size, total, status]\<close> of the completion effect had at the last render.
  \<^verbatim>\<open>reset\<close> does not touch the suspended calls: nothing in the source cancels them.
\<close>

datatype phase = AwaitCreate | AwaitUpload | Finished

record world =
  ui :: hook
  opened :: "nat list"
  closed :: "nat list"
  calls :: "phase list"
  rendered :: "nat \<times> int \<times> status"

text \<open>
  What can happen. \<open>Analyze\<close> and \<open>Reset\<close> are the calls of the hook's two functions.
  \<open>CreateJobResolved k job_id duplicate_label_ids\<close> and \<open>CreateJobRejected k message\<close>
  resume call \<open>k\<close> at \<^verbatim>\<open>await createJob(...)\<close>; \<open>UploadSettled k outcome\<close> resumes it at
  \<^verbatim>\<open>await uploadAllChunked(...)\<close>. \<open>Stream k e\<close> is the browser dispatching an event on
  the \<^verbatim>\<open>EventSource\<close> of call \<open>k\<close>: the four named server events with their parsed
  data, and the browser's own \<^verbatim>\<open>error\<close> event, which carries no data and comes either
  while the browser reconnects or, \<open>ConnectionError True\<close>, after it has closed the
  connection for good. \<open>Render\<close> is React rendering the state as it is now and running
  the effects whose dependencies have changed: state updates made by callbacks that run
  before the next render are batched.
\<close>

datatype streamEvent =
    Meta int
  | Result int payload
  | ItemError int payload
  | Done "donePayload option"
  | ConnectionError bool

datatype event =
    Analyze "jsfile list"
  | Reset
  | CreateJobResolved nat string "string list option"
  | CreateJobRejected nat string
  | UploadSettled nat "unit settled"
  | Stream nat streamEvent
  | Render

fun isAnalyze :: "event \<Rightarrow> bool" where
  "isAnalyze (Analyze fs) = True"
| "isAnalyze e = False"

fun isUserCall :: "event \<Rightarrow> bool" where
  "isUserCall (Analyze fs) = True"
| "isUserCall Reset = True"
| "isUserCall e = False"

fun isRejection :: "event \<Rightarrow> bool" where
  "isRejection (CreateJobRejected k msg) = True"
| "isRejection (UploadSettled k (Rejected msg)) = True"
| "isRejection e = False"

definition initialHook :: hook where
  "initialHook =
     \<lparr>status = Idle, results = [], total_files = 0, error = None, duplicateIds = [],
      unmatchedCsvRows = [], elapsedSeconds = None, eventSourceRef = None,
      startTimeRef = None, donePayloadRef = None\<rparr>"

text \<open>The dependency array \<^verbatim>\<open>[results.size, total, status]\<close> of the effect.\<close>

definition deps :: "hook \<Rightarrow> nat \<times> int \<times> status" where
  "deps h = (length (results h), total_files h, status h)"

text \<open>The hook is mounted: the first render has run the effect on the initial state.\<close>

definition initialWorld :: world where
  "initialWorld =
     \<lparr>ui = initialHook, opened = [], closed = [], calls = [], rendered = deps initialHook\<rparr>"

text \<open>An \<^verbatim>\<open>EventSource\<close> dispatches events only while it is not closed.\<close>

definition live :: "world \<Rightarrow> nat \<Rightarrow> bool" where
  "live w k \<longleftrightarrow> k \<in> set (opened w) \<and> k \<notin> set (closed w)"

definition phaseOf :: "world \<Rightarrow> nat \<Rightarrow> phase" where
  "phaseOf w k = (if k < length (calls w) then calls w ! k else Finished)"

definition setPhase :: "nat \<Rightarrow> phase \<Rightarrow> world \<Rightarrow> world" where
  "setPhase k p w = w\<lparr>calls := (calls w)[k := p]\<rparr>"

text \<open>\<^verbatim>\<open>if (eventSourceRef.current) { eventSourceRef.current.close();
  eventSourceRef.current = null; }\<close>\<close>

definition closeRef :: "world \<Rightarrow> world" where
  "closeRef w =
     (case eventSourceRef (ui w) of
        Some k \<Rightarrow> w\<lparr>closed := closed w @ [k], ui := (ui w)\<lparr>eventSourceRef := None\<rparr>\<rparr>
      | None \<Rightarrow> w)"

definition reset :: "world \<Rightarrow> world" where
  "reset w =
     (let w1 = closeRef w in
      w1\<lparr>ui := (ui w1)\<lparr>status := Idle, results := [], total_files := 0, error := None,
                       duplicateIds := [], unmatchedCsvRows := [], elapsedSeconds := None,
                       startTimeRef := None, donePayloadRef := None\<rparr>\<rparr>)"

text \<open>\<^verbatim>\<open>analyze\<close> up to its first \<^verbatim>\<open>await\<close>; \<open>now\<close> is \<^verbatim>\<open>performance.now()\<close>.\<close>

definition analyzeStart :: "rat \<Rightarrow> jsfile list \<Rightarrow> world \<Rightarrow> world" where
  "analyzeStart now fs w =
     (let w1 = reset w in
      w1\<lparr>ui := (ui w1)\<lparr>total_files := int (length fs), status := Uploading,
                       startTimeRef := Some now\<rparr>,
         calls := calls w1 @ [AwaitCreate]\<rparr>)"

text \<open>\<^verbatim>\<open>analyze\<close> between its two \<^verbatim>\<open>await\<close>s: the duplicate ids are surfaced, the
  \<^verbatim>\<open>EventSource\<close> is created and stored in the ref, and the upload is started.\<close>

definition createJobResolved :: "nat \<Rightarrow> string list option \<Rightarrow> world \<Rightarrow> world" where
  "createJobResolved k dups w =
     (let w1 = setPhase k AwaitUpload w in
      w1\<lparr>ui := (ui w1)\<lparr>duplicateIds :=
                         (case dups of
                            Some d \<Rightarrow> if length d > 0 then d else duplicateIds (ui w1)
                          | None \<Rightarrow> duplicateIds (ui w1)),
                       eventSourceRef := Some k\<rparr>,
         opened := opened w1 @ [k]\<rparr>)"

text \<open>The \<^verbatim>\<open>catch\<close> block of \<^verbatim>\<open>analyze\<close>.\<close>

definition catchBlock :: "string \<Rightarrow> world \<Rightarrow> world" where
  "catchBlock msg w = closeRef (w\<lparr>ui := (ui w)\<lparr>error := Some msg, status := Error\<rparr>\<rparr>)"

text \<open>The listeners registered on the \<^verbatim>\<open>EventSource\<close> \<open>k\<close>. A data-carrying
  \<^verbatim>\<open>error\<close> event also reaches \<^verbatim>\<open>es.onerror\<close>, which does nothing while the source
  is not closed.\<close>

definition onStream :: "nat \<Rightarrow> streamEvent \<Rightarrow> world \<Rightarrow> world" where
  "onStream k e w =
     (case e of
        Meta t \<Rightarrow> w\<lparr>ui := (ui w)\<lparr>total_files := t\<rparr>\<rparr>
      | Result i p \<Rightarrow>
          w\<lparr>ui := (ui w)\<lparr>results := AList.update i (Success p) (results (ui w)),
                          status := (if status (ui w) = Uploading then Streaming
                                     else status (ui w))\<rparr>\<rparr>
      | ItemError i p \<Rightarrow>
          if i \<ge> 0 then
            w\<lparr>ui := (ui w)\<lparr>results := AList.update i (Failure p) (results (ui w))\<rparr>\<rparr>
          else w
      | Done d \<Rightarrow>
          w\<lparr>ui := (ui w)\<lparr>donePayloadRef :=
                            (case d of Some p \<Rightarrow> Some p | None \<Rightarrow> donePayloadRef (ui w)),
                          eventSourceRef := None\<rparr>,
            closed := closed w @ [k]\<rparr>
      | ConnectionError gone \<Rightarrow>
          if gone then w\<lparr>ui := (ui w)\<lparr>eventSourceRef := None\<rparr>, closed := closed w @ [k]\<rparr>
          else w)"

definition dispatch :: "rat \<Rightarrow> event \<Rightarrow> world \<Rightarrow> world" where
  "dispatch now e w =
     (case e of
        Analyze fs \<Rightarrow> analyzeStart now fs w
      | Reset \<Rightarrow> reset w
      | CreateJobResolved k job_id dups \<Rightarrow>
          if phaseOf w k = AwaitCreate then createJobResolved k dups w else w
      | CreateJobRejected k msg \<Rightarrow>
          if phaseOf w k = AwaitCreate then catchBlock msg (setPhase k Finished w) else w
      | UploadSettled k outcome \<Rightarrow>
          if phaseOf w k = AwaitUpload then
            (case outcome of
               Resolved u \<Rightarrow> setPhase k Finished w
             | Rejected msg \<Rightarrow> catchBlock msg (setPhase k Finished w))
          else w
      | Stream k ev \<Rightarrow> if live w k then onStream k ev w else w
      | Render \<Rightarrow> w)"

text \<open>The condition and the body of the completion effect.\<close>

definition completionDue :: "hook \<Rightarrow> bool" where
  "completionDue h \<longleftrightarrow>
     total_files h > 0 \<and> int (length (results h)) \<ge> total_files h
     \<and> (status h = Streaming \<or> status h = Uploading)"

definition elapsed :: "rat \<Rightarrow> rat \<Rightarrow> int" where
  "elapsed now t0 = Math_round (fl64 (fl64 (now - t0) / 1000))"

definition completionEffect :: "rat \<Rightarrow> world \<Rightarrow> world" where
  "completionEffect now w =
     (if completionDue (ui w) then
        closeRef
          (w\<lparr>ui := (ui w)
             \<lparr>status := Complete,
              elapsedSeconds :=
                (case startTimeRef (ui w) of
                   Some t0 \<Rightarrow> if t0 \<noteq> 0 then Some (elapsed now t0) else elapsedSeconds (ui w)
                 | None \<Rightarrow> elapsedSeconds (ui w)),
              unmatchedCsvRows :=
                (case donePayloadRef (ui w) of
                   Some p \<Rightarrow> (case unmatched_csv_rows p of
                                Some rows \<Rightarrow> rows
                              | None \<Rightarrow> unmatchedCsvRows (ui w))
                 | None \<Rightarrow> unmatchedCsvRows (ui w))\<rparr>\<rparr>)
      else w)"

text \<open>A render: the effect runs if one of its dependencies differs from the last
  render. \<open>now\<close> is what \<^verbatim>\<open>performance.now()\<close> returns in the effect.\<close>

definition render :: "rat \<Rightarrow> world \<Rightarrow> world" where
  "render now w =
     (if deps (ui w) \<noteq> rendered w then (completionEffect now w)\<lparr>rendered := deps (ui w)\<rparr>
      else w)"

text \<open>
  One step. \<^verbatim>\<open>analyze\<close> and \<^verbatim>\<open>reset\<close> are called from click handlers (the Analyze
  and New Analysis buttons): React renders and runs the effects before the click is over.
  After any other callback the render comes later, as a step of its own, and further
  callbacks may run before it.
\<close>

definition step :: "rat \<Rightarrow> event \<Rightarrow> world \<Rightarrow> world" where
  "step now e w =
     (if e = Render then render now w
      else if isUserCall e then render now (dispatch now e w)
      else dispatch now e w)"

fun run :: "world \<Rightarrow> (rat \<times> event) list \<Rightarrow> world" where
  "run w [] = w"
| "run w ((now, e) # es) = run (step now e w) es"

text \<open>The number of steps of a run in which the status becomes \<open>Complete\<close>.\<close>

fun completions :: "world \<Rightarrow> (rat \<times> event) list \<Rightarrow> nat" where
  "completions w [] = 0"
| "completions w ((now, e) # es) =
     (if status (ui (step now e w)) = Complete \<and> status (ui w) \<noteq> Complete then 1 else 0)
     + completions (step now e w) es"

text \<open>
  A server that keeps to the job: a \<^verbatim>\<open>result\<close> or \<^verbatim>\<open>error\<close> event carries a client
  index from 0 up to, not including, the current \<open>total_files\<close>, and a \<^verbatim>\<open>meta\<close>
  event carries a \<open>total_files\<close> that is not negative and lies above every client index
  already stored.
\<close>

fun eventOk :: "world \<Rightarrow> event \<Rightarrow> bool" where
  "eventOk w (Stream k (Meta t)) = (0 \<le> t \<and> list_all (\<lambda>(i, r). i < t) (results (ui w)))"
| "eventOk w (Stream k (Result i p)) = (0 \<le> i \<and> i < total_files (ui w))"
| "eventOk w (Stream k (ItemError i p)) = (0 \<le> i \<and> i < total_files (ui w))"
| "eventOk w e = True"

fun eventsOk :: "world \<Rightarrow> (rat \<times> event) list \<Rightarrow> bool" where
  "eventsOk w [] = True"
| "eventsOk w ((now, e) # es) = (eventOk w e \<and> eventsOk (step now e w) es)"

text \<open>The client indices stored are distinct and lie below \<open>total_files\<close>.\<close>

definition storeInv :: "hook \<Rightarrow> bool" where
  "storeInv h \<longleftrightarrow>
     0 \<le> total_files h
   \<and> distinct (map fst (results h))
   \<and> list_all (\<lambda>(i, r). 0 \<le> i \<and> i < total_files h) (results h)"

text \<open>The statuses that only \<^verbatim>\<open>analyze()\<close> leaves.\<close>

definition atRest :: "world \<Rightarrow> bool" where
  "atRest w \<longleftrightarrow> status (ui w) = Idle \<or> status (ui w) = Complete \<or> status (ui w) = Error"

text \<open>While the last render saw the completion condition hold, the status is neither
  \<open>Uploading\<close> nor \<open>Streaming\<close>.\<close>

definition renderInv :: "world \<Rightarrow> bool" where
  "renderInv w \<longleftrightarrow>
     (case rendered w of
        (n, t, s) \<Rightarrow> t > 0 \<and> int n \<ge> t \<and> (s = Streaming \<or> s = Uploading)
          \<longrightarrow> status (ui w) \<noteq> Uploading \<and> status (ui w) \<noteq> Streaming)"

section \<open>UploadZone: properties\<close>

lemma files_handleCsvFile: "files (handleCsvFile outcome z) = files z"
  by (simp add: handleCsvFile_def Let_def split: papaOutcome.split)

lemma deduped_Nil: "deduped prev [] = []"
  by (simp add: deduped_def)

text \<open>
  Claim C8. For every accepted file set and every incoming list, with \<open>images\<close> the
  incoming files of an allowed image type and \<open>added\<close> those of them not yet accepted
  (by name and size): when the accepted files and \<open>added\<close> together number more than
  300, the accepted set stays exactly as it was; otherwise \<open>added\<close> is appended after
  the accepted files, in incoming order. An accepted set of at most 300 files stays at most
  300.
\<close>

theorem addFiles_ceiling:
  "let images = filter (\<lambda>f. ftype f \<in> set ALLOWED_IMAGE_TYPES) fileList;
       added = deduped (files z) images;
       after = files (addFiles papa fileList z)
   in (300 < length (files z) + length added \<longrightarrow> after = files z)
    \<and> (length (files z) + length added \<le> 300 \<longrightarrow> after = files z @ added)
    \<and> (length (files z) \<le> 300 \<longrightarrow> length after \<le> 300)"
proof -
  let ?csv = "find (\<lambda>f. endsWith (name f) ''.csv'' \<or> ftype f = ''text/csv'') fileList"
  let ?z1 = "case ?csv of Some csvFile \<Rightarrow> handleCsvFile (papa csvFile) z | None \<Rightarrow> z"
  have z1: "files ?z1 = files z"
    by (simp add: files_handleCsvFile split: option.split)
  show ?thesis
  proof (cases "filter (\<lambda>f. ftype f \<in> set ALLOWED_IMAGE_TYPES) fileList = []")
    case True
    then show ?thesis
      using z1 by (simp add: addFiles_def Let_def deduped_Nil)
  next
    case False
    then show ?thesis
      using z1 by (simp add: addFiles_def Let_def mergeFiles_def MAX_FILES_def)
  qed
qed

text \<open>A 301st image is refused and the 300 accepted files stay; with one accepted file,
  a list of a new image, an image of the same name and size as the accepted one, and a text
  file adds the new image only.\<close>

theorem addFiles_ceiling_witness:
  "files (addFiles (\<lambda>f. PapaError ''unused'')
       [\<lparr>name = ''b.png'', fsize = 7, ftype = ''image/png'', lastModified = 0, blob = []\<rparr>]
       \<lparr>files = replicate 300
           \<lparr>name = ''a.png'', fsize = 7, ftype = ''image/png'', lastModified = 0, blob = []\<rparr>,
        csvRows = None, csvError = None\<rparr>)
     = replicate 300
         \<lparr>name = ''a.png'', fsize = 7, ftype = ''image/png'', lastModified = 0, blob = []\<rparr>
 \<and> files (addFiles (\<lambda>f. PapaError ''unused'')
       [\<lparr>name = ''b.png'', fsize = 7, ftype = ''image/png'', lastModified = 0, blob = []\<rparr>,
        \<lparr>name = ''a.png'', fsize = 7, ftype = ''image/jpeg'', lastModified = 5, blob = [1]\<rparr>,
        \<lparr>name = ''notes.txt'', fsize = 2, ftype = ''text/plain'', lastModified = 0, blob = []\<rparr>]
       \<lparr>files = [\<lparr>name = ''a.png'', fsize = 7, ftype = ''image/png'', lastModified = 0,
                    blob = []\<rparr>],
        csvRows = None, csvError = None\<rparr>)
     = [\<lparr>name = ''a.png'', fsize = 7, ftype = ''image/png'', lastModified = 0, blob = []\<rparr>,
        \<lparr>name = ''b.png'', fsize = 7, ftype = ''image/png'', lastModified = 0, blob = []\<rparr>]"
proof -
  define a where "a = \<lparr>name = ''a.png'', fsize = 7, ftype = ''image/png'', lastModified = 0,
    blob = []::nat list\<rparr>"
  define b where "b = \<lparr>name = ''b.png'', fsize = 7, ftype = ''image/png'', lastModified = 0,
    blob = []::nat list\<rparr>"
  define a' where "a' = \<lparr>name = ''a.png'', fsize = 7, ftype = ''image/jpeg'', lastModified = 5,
    blob = [1::nat]\<rparr>"
  define t where "t = \<lparr>name = ''notes.txt'', fsize = 2, ftype = ''text/plain'', lastModified = 0,
    blob = []::nat list\<rparr>"
  define papa :: "jsfile \<Rightarrow> papaOutcome" where "papa = (\<lambda>f. PapaError ''unused'')"
  have k: "fileKey b \<noteq> fileKey a" "fileKey a' = fileKey a"
    by (simp_all add: fileKey_def a_def b_def a'_def)
  have ty: "ftype a \<in> set ALLOWED_IMAGE_TYPES" "ftype b \<in> set ALLOWED_IMAGE_TYPES"
    "ftype a' \<in> set ALLOWED_IMAGE_TYPES" "ftype t \<notin> set ALLOWED_IMAGE_TYPES"
    by (simp_all add: ALLOWED_IMAGE_TYPES_def a_def b_def a'_def t_def)
  have d1: "deduped (replicate 300 a) [b] = [b]"
    using k by (simp add: deduped_def)
  have d2: "deduped [a] [b, a'] = [b]"
    using k by (simp add: deduped_def)
  have "files (addFiles papa [b] \<lparr>files = replicate 300 a, csvRows = None, csvError = None\<rparr>)
      = replicate 300 a"
    using addFiles_ceiling [of "[b]" "\<lparr>files = replicate 300 a, csvRows = None, csvError = None\<rparr>" papa]
      ty d1 by (simp add: Let_def)
  moreover have "files (addFiles papa [b, a', t] \<lparr>files = [a], csvRows = None, csvError = None\<rparr>)
      = [a, b]"
    using addFiles_ceiling [of "[b, a', t]" "\<lparr>files = [a], csvRows = None, csvError = None\<rparr>" papa]
      ty d2 by (simp add: Let_def)
  ultimately show ?thesis
    unfolding a_def b_def a'_def t_def papa_def by simp
qed

text \<open>
  Claim C9, on the code. A reference row whose \<open>brand_name\<close> cell holds only blanks
  passes the test \<^verbatim>\<open>row[col] !== ""\<close>, which is made before the value is trimmed, and is
  kept in the accepted output with the empty string as its value.
\<close>

theorem handleCsvFile_keeps_blank_value:
  "csvRows (handleCsvFile
       (PapaComplete [] [ [(''label_id'', ''A1''), (''brand_name'', ''  '')] ])
       \<lparr>files = [], csvRows = None, csvError = None\<rparr>)
     = Some [ [(''label_id'', ''A1''), (''brand_name'', '''')] ]"
  by (simp add: handleCsvFile_def cleaned_def cleanRow_def hasLabelId_def trim_def
      isWhiteSpace_def RECOGNIZED_CSV_COLUMNS_def REQUIRED_CSV_COLUMN_def MAX_FILES_def)

text \<open>What does hold of the accepted rows: their keys are recognised columns, and each
  has a \<open>label_id\<close> that is not empty.\<close>

lemma keys_AList_update: "fst ` set (AList.update k v al) = insert k (fst ` set al)"
  by (induction al) auto

lemma cleanCols_keys:
  "fst ` set (cleanCols cols row out) \<subseteq> set cols \<union> fst ` set out"
proof (induction cols arbitrary: out)
  case Nil
  then show ?case by simp
next
  case (Cons col cols)
  show ?case
    using Cons [of "case map_of row col of None \<Rightarrow> out
        | Some v \<Rightarrow> if v \<noteq> [] then AList.update col (trim v) out else out"]
    by (auto simp: keys_AList_update split: option.splits if_splits)
qed

lemma cleaned_keys:
  assumes "r \<in> set (cleaned rows)"
  shows "fst ` set r \<subseteq> set RECOGNIZED_CSV_COLUMNS"
proof -
  obtain row where "r = cleanRow row"
    using assms by (auto simp: cleaned_def)
  then show ?thesis
    using cleanCols_keys [of RECOGNIZED_CSV_COLUMNS row "[]"] by (simp add: cleanRow_def)
qed

lemma cleaned_label_id:
  assumes "r \<in> set (cleaned rows)"
  shows "\<exists>v. map_of r ''label_id'' = Some v \<and> v \<noteq> []"
  using assms by (auto simp: cleaned_def hasLabelId_def split: option.splits)

section \<open>ImagePreprocessor: properties\<close>

text \<open>
  Claim C5. \<open>compressImage\<close> always resolves and never rejects. It resolves with the
  input file itself when the declared media type does not start with \<open>image/\<close>, when
  the image fails to load, and when the encoder hands back no blob.
\<close>

theorem compressImage_never_rejects:
  "(\<exists>f. compressImage env file = Resolved f)
   \<and> (\<not> startsWith (ftype file) ''image/'' \<longrightarrow> compressImage env file = Resolved file)
   \<and> (decode env file = LoadError \<longrightarrow> compressImage env file = Resolved file)
   \<and> (\<forall>w h. decode env file = Loaded w h \<longrightarrow>
         toBlob env file (fst (scaleDims w h)) (snd (scaleDims w h)) ''image/jpeg'' JPEG_QUALITY
           = None \<longrightarrow>
         compressImage env file = Resolved file)"
  by (simp add: compressImage_def split: decodeOutcome.split option.split prod.split)

text \<open>A text file with a browser that loads nothing, and a PNG with a browser that
  loads nothing or encodes nothing.\<close>

theorem compressImage_never_rejects_witness:
  "let txt = \<lparr>name = ''notes.txt'', fsize = 3, ftype = ''text/plain'', lastModified = 7,
              blob = [1, 2, 3]\<rparr>;
       png = \<lparr>name = ''label.png'', fsize = 2, ftype = ''image/png'', lastModified = 9,
              blob = [4, 5]\<rparr>;
       broken = \<lparr>decode = (\<lambda>f. LoadError), toBlob = (\<lambda>f w h t q. None)\<rparr>;
       mute = \<lparr>decode = (\<lambda>f. Loaded 3200 1600), toBlob = (\<lambda>f w h t q. None)\<rparr>
   in compressImage broken txt = Resolved txt
    \<and> compressImage broken png = Resolved png
    \<and> compressImage mute png = Resolved png"
proof -
  let ?txt = "\<lparr>name = ''notes.txt'', fsize = 3, ftype = ''text/plain'', lastModified = 7,
              blob = [1, 2, 3]\<rparr>"
  let ?png = "\<lparr>name = ''label.png'', fsize = 2, ftype = ''image/png'', lastModified = 9,
              blob = [4, 5]\<rparr>"
  let ?broken = "\<lparr>decode = (\<lambda>f. LoadError), toBlob = (\<lambda>f w h t q. None)\<rparr>"
  let ?mute = "\<lparr>decode = (\<lambda>f. Loaded 3200 1600), toBlob = (\<lambda>f w h t q. None)\<rparr>"
  have "\<not> startsWith (ftype ?txt) ''image/''"
    by (simp add: startsWith_def)
  with compressImage_never_rejects [of ?broken ?txt]
    compressImage_never_rejects [of ?broken ?png]
    compressImage_never_rejects [of ?mute ?png]
  show ?thesis
    by (simp add: Let_def)
qed

subsection \<open>Rounding to double and the scaled dimensions\<close>

lemma roundHalfEven_near: "\<bar>of_int (roundHalfEven y) - y\<bar> \<le> 1/2"
proof -
  have "of_int \<lfloor>y\<rfloor> \<le> y" "y < of_int \<lfloor>y\<rfloor> + 1"
    by linarith+
  then show ?thesis
    by (auto simp: roundHalfEven_def Let_def abs_le_iff)
qed

lemma pow2_bitlen_lower: "0 < a \<Longrightarrow> (2::rat) powi (bitlen a - 1) \<le> of_int a"
proof -
  assume a: "0 < a"
  then have "bitlen a - 1 \<ge> 0"
    using bitlen_nonneg [of a] bitlen_eq_zero_iff [of a] by linarith
  then have "(2::rat) powi (bitlen a - 1) = 2 ^ nat (bitlen a - 1)"
    by (simp add: power_int_def)
  also have "\<dots> = of_int (2 ^ nat (bitlen a - 1))"
    by simp
  also have "\<dots> \<le> of_int a"
    using bitlen_bounds [OF a] by (subst of_int_le_iff) simp
  finally show ?thesis .
qed

lemma pow2_bitlen_upper: "0 < b \<Longrightarrow> of_int b < (2::rat) powi (bitlen b)"
proof -
  assume b: "0 < b"
  have "(2::rat) powi (bitlen b) = 2 ^ nat (bitlen b)"
    using bitlen_nonneg [of b] by (simp add: power_int_def)
  also have "\<dots> = of_int (2 ^ nat (bitlen b))"
    by simp
  also have "\<dots> > of_int b"
    using bitlen_bounds [OF b] by (subst of_int_less_iff) simp
  finally show ?thesis .
qed

lemma ilog2_lower:
  assumes "0 < x"
  shows "2 powi (ilog2 x) \<le> x"
proof -
  obtain a b where q: "quotient_of x = (a, b)"
    by (cases "quotient_of x") auto
  have b: "0 < b"
    using quotient_of_denom_pos [OF q] .
  have x: "x = of_int a / of_int b"
    using quotient_of_div [OF q] .
  have a: "0 < a"
    using assms b unfolding x by (simp add: zero_less_divide_iff)
  define e where "e = bitlen a - bitlen b"
  show ?thesis
  proof (cases "x < 2 powi e")
    case False
    then show ?thesis
      by (simp add: ilog2_def q e_def)
  next
    case True
    have "e - 1 = (bitlen a - 1) - bitlen b"
      by (simp add: e_def)
    then have "(2::rat) powi (e - 1) = 2 powi ((bitlen a - 1) - bitlen b)"
      by (rule arg_cong)
    also have "\<dots> = 2 powi (bitlen a - 1) / 2 powi (bitlen b)"
      by (rule power_int_diff) simp
    finally have "(2::rat) powi (e - 1) = 2 powi (bitlen a - 1) / 2 powi (bitlen b)" .
    also have "\<dots> \<le> of_int a / 2 powi (bitlen b)"
      using pow2_bitlen_lower [OF a] by (simp add: divide_right_mono)
    also have "\<dots> \<le> of_int a / of_int b"
      using pow2_bitlen_upper [OF b] a b by (simp add: frac_le)
    finally have "(2::rat) powi (e - 1) \<le> x"
      unfolding x .
    with True show ?thesis
      by (simp add: ilog2_def q e_def)
  qed
qed

lemma fl64_error:
  assumes "0 < x" and "2 powi (- 1022) \<le> x"
  shows "\<bar>fl64 x - x\<bar> \<le> x / 2 ^ 53"
proof -
  define e where "e = max (ilog2 x) (- 1022)"
  define y where "y = x * 2 powi (52 - e)"
  have e: "2 powi e \<le> x"
    using ilog2_lower [OF assms(1)] assms(2) by (simp add: e_def max_def)
  have p: "(0::rat) < 2 powi (e - 52)"
    by (simp add: zero_less_power_int)
  have yx: "y * 2 powi (e - 52) = x"
    unfolding y_def by (simp add: power_int_diff)
  have "fl64 x = of_int (roundHalfEven y) * 2 powi (e - 52)"
    using assms(1) by (simp add: fl64_def e_def y_def Let_def)
  then have "fl64 x - x = (of_int (roundHalfEven y) - y) * 2 powi (e - 52)"
    using yx by (simp add: left_diff_distrib)
  then have "\<bar>fl64 x - x\<bar> = \<bar>of_int (roundHalfEven y) - y\<bar> * 2 powi (e - 52)"
    using p by (simp add: abs_mult)
  also have "\<dots> \<le> 1/2 * 2 powi (e - 52)"
    using roundHalfEven_near [of y] p by (simp add: mult_right_mono)
  also have "\<dots> = 2 powi e / 2 ^ 53"
    by (simp add: power_int_diff)
  also have "\<dots> \<le> x / 2 ^ 53"
    using e by (simp add: divide_right_mono)
  finally show ?thesis .
qed


lemma fl64_zero: "fl64 0 = 0"
  by (simp add: fl64_def)

lemma scale_normal:
  assumes "1600 < L" "L < 2 ^ 32"
  shows "(2::rat) powi (- 1022) \<le> 1600 / of_nat L / 2"
proof -
  have L: "(0::rat) < of_nat L" "rat_of_nat L \<le> 2 ^ 32"
    using assms by (simp_all add: of_nat_less_iff [of L "2 ^ 32", where ?'a = rat, simplified] less_imp_le)
  have "(2::rat) powi (- 1022) \<le> 2 powi (- 33)"
    by (rule power_int_increasing) simp_all
  also have "\<dots> = 1 / 2 ^ 32 / 2"
    by (simp add: power_int_minus_divide)
  also have "\<dots> \<le> 1 / of_nat L / 2"
    using L by (simp add: frac_le)
  also have "\<dots> \<le> 1600 / of_nat L / 2"
    using L by (intro divide_right_mono) simp_all
  finally show ?thesis .
qed

lemma scaled_close:
  assumes L: "1600 < L" "L < 2 ^ 32" and d: "d \<le> L"
  shows "\<bar>fl64 (of_nat d * fl64 (1600 / of_nat L)) - 1600 * of_nat d / of_nat L\<bar> \<le> 1 / 2 ^ 40"
proof (cases "d = 0")
  case True
  then show ?thesis by (simp add: fl64_zero)
next
  case False
  define u :: rat where "u = 1 / 2 ^ 53"
  define r :: rat where "r = 1600 / of_nat L"
  define s where "s = fl64 r"
  define D :: rat where "D = of_nat d"
  define x where "x = D * s"
  define v where "v = D * r"
  have u: "0 < u" "u \<le> 1/2"
    by (simp_all add: u_def)
  have Lp: "(0::rat) < of_nat L"
    using L by simp
  have r: "0 < r"
    using Lp by (simp add: r_def)
  have rn: "2 powi (- 1022) \<le> r / 2"
    unfolding r_def by (rule scale_normal [OF L])
  have D: "1 \<le> D"
    using False by (simp add: D_def Suc_le_eq [symmetric])
  have DL: "D \<le> of_nat L"
    using d by (simp add: D_def)
  have h1: "\<bar>s - r\<bar> \<le> r * u"
    using fl64_error [OF r] rn r by (simp add: s_def u_def)
  have s_lo: "r / 2 \<le> s"
  proof -
    have "r * u \<le> r * (1/2)"
      using u r by (intro mult_left_mono) simp_all
    with h1 show ?thesis by (simp add: abs_le_iff)
  qed
  have xs: "s \<le> x"
    using D r s_lo unfolding x_def by (simp add: mult_le_cancel_right1)
  have xp: "0 < x" and xn: "2 powi (- 1022) \<le> x"
    using xs s_lo rn r by linarith+
  have h3: "\<bar>x - v\<bar> \<le> v * u"
  proof -
    have "x - v = D * (s - r)"
      by (simp add: x_def v_def right_diff_distrib)
    then have "\<bar>x - v\<bar> = D * \<bar>s - r\<bar>"
      using D by (simp add: abs_mult)
    also have "\<dots> \<le> D * (r * u)"
      using h1 D by (intro mult_left_mono) simp_all
    finally show ?thesis by (simp add: v_def mult.assoc)
  qed
  have h4: "\<bar>fl64 x - x\<bar> \<le> x * u"
    using fl64_error [OF xp xn] by (simp add: u_def)
  have v: "0 \<le> v" "v \<le> 1600"
  proof -
    show "0 \<le> v" using D r by (simp add: v_def)
    have "v = 1600 * (D / of_nat L)"
      by (simp add: v_def r_def)
    also have "\<dots> \<le> 1600 * 1"
      using DL Lp by (intro mult_left_mono) simp_all
    finally show "v \<le> 1600" by simp
  qed
  have x_hi: "x \<le> v + v * u"
    using h3 by (simp add: abs_le_iff)
  have "x * u \<le> (v + v * u) * u"
    using x_hi u by (intro mult_right_mono) simp_all
  with h3 h4 have "\<bar>fl64 x - v\<bar> \<le> (v + v * u) * u + v * u"
    by linarith
  also have "\<dots> = v * ((1 + u) * u + u)"
    by (simp add: algebra_simps)
  also have "\<dots> \<le> 1600 * ((1 + u) * u + u)"
    using v u by (intro mult_right_mono) simp_all
  also have "\<dots> \<le> 1 / 2 ^ 40"
    by (simp add: u_def)
  finally have "\<bar>fl64 x - v\<bar> \<le> 1 / 2 ^ 40" .
  moreover have "v = 1600 * of_nat d / of_nat L"
    by (simp add: v_def D_def r_def)
  ultimately show ?thesis
    by (simp add: x_def s_def D_def r_def)
qed

lemma round_near_fraction:
  fixes p :: rat and N M :: int
  assumes M: "0 < M" and close: "\<bar>p - of_int N / of_int M\<bar> \<le> eps"
    and eps: "eps * (2 * of_int M) < 1"
  shows "\<bar>rat_of_int (Math_round p) - of_int N / of_int M\<bar> \<le> 1/2"
proof -
  define k where "k = Math_round p"
  define v :: rat where "v = of_int N / of_int M"
  have Mp: "(0::rat) < of_int M"
    using M by simp
  have k1: "of_int k \<le> p + 1/2" and k2: "p + 1/2 < of_int k + 1"
    unfolding k_def Math_round_def by linarith+
  have eps': "eps < 1 / (2 * of_int M)"
    using eps Mp by (simp add: pos_less_divide_eq)
  have vM: "v * of_int M = of_int N"
    using Mp by (simp add: v_def)
  have up: "of_int k - v \<le> 1/2"
  proof (rule ccontr)
    assume "\<not> of_int k - v \<le> 1/2"
    then have "(of_int k - v) * (2 * of_int M) > (1/2) * (2 * of_int M)"
      using Mp by (intro mult_strict_right_mono) simp_all
    then have "rat_of_int (2 * k * M - 2 * N) > of_int M"
      using vM by (simp add: algebra_simps)
    then have "2 * k * M - 2 * N > M"
      by (simp only: of_int_less_iff)
    then have "2 * k * M - 2 * N \<ge> M + 1"
      by simp
    then have "rat_of_int (2 * k * M - 2 * N) \<ge> of_int (M + 1)"
      by (simp only: of_int_le_iff)
    then have "(of_int k - v) * (2 * of_int M) \<ge> of_int M + 1"
      using vM by (simp add: algebra_simps)
    then have "of_int k - v \<ge> (of_int M + 1) / (2 * of_int M)"
      using Mp by (simp add: pos_divide_le_eq)
    also have "(of_int M + 1) / (2 * of_int M) = 1/2 + 1 / (2 * rat_of_int M)"
      using Mp by (simp add: field_simps)
    finally have "of_int k - v - 1/2 \<ge> 1 / (2 * rat_of_int M)"
      by simp
    moreover have "of_int k - v - 1/2 \<le> eps"
      using k1 close unfolding v_def [symmetric] by (simp add: abs_le_iff)
    ultimately show False
      using eps' by simp
  qed
  have lo: "v - of_int k \<le> 1/2"
  proof (rule ccontr)
    assume "\<not> v - of_int k \<le> 1/2"
    then have "(v - of_int k) * (2 * of_int M) > (1/2) * (2 * of_int M)"
      using Mp by (intro mult_strict_right_mono) simp_all
    then have "rat_of_int (2 * N - 2 * k * M) > of_int M"
      using vM by (simp add: algebra_simps)
    then have "2 * N - 2 * k * M > M"
      by (simp only: of_int_less_iff)
    then have "2 * N - 2 * k * M \<ge> M + 1"
      by simp
    then have "rat_of_int (2 * N - 2 * k * M) \<ge> of_int (M + 1)"
      by (simp only: of_int_le_iff)
    then have "(v - of_int k) * (2 * of_int M) \<ge> of_int M + 1"
      using vM by (simp add: algebra_simps)
    then have "v - of_int k \<ge> (of_int M + 1) / (2 * of_int M)"
      using Mp by (simp add: pos_divide_le_eq)
    also have "(of_int M + 1) / (2 * of_int M) = 1/2 + 1 / (2 * rat_of_int M)"
      using Mp by (simp add: field_simps)
    finally have "v - of_int k - 1/2 \<ge> 1 / (2 * rat_of_int M)"
      by simp
    moreover have "v - of_int k - 1/2 < eps"
      using k2 close unfolding v_def [symmetric] by (simp add: abs_le_iff)
    ultimately show False
      using eps' by simp
  qed
  from up lo have "\<bar>rat_of_int k - v\<bar> \<le> 1/2"
    by (intro abs_leI) linarith+
  then show ?thesis
    unfolding k_def v_def .
qed


lemma scaled_dim:
  assumes L: "1600 < L" "L < 2 ^ 32" and d: "d \<le> L"
  shows "\<bar>rat_of_int (Math_round (fl64 (of_nat d * fl64 (1600 / of_nat L))))
           - 1600 * of_nat d / of_nat L\<bar> \<le> 1/2"
proof -
  have c: "\<bar>fl64 (of_nat d * fl64 (1600 / of_nat L)) - of_int (1600 * int d) / of_int (int L)\<bar>
      \<le> 1 / 2 ^ 40"
    using scaled_close [OF L d] by simp
  have "rat_of_nat L < 2 ^ 32"
    using L(2) by (simp add: of_nat_less_iff [of L "2 ^ 32", where ?'a = rat, simplified])
  then have e: "(1 / 2 ^ 40) * (2 * rat_of_int (int L)) < 1"
    by simp
  have "0 < int L"
    using L by simp
  from round_near_fraction [OF this c e] show ?thesis
    by simp
qed

lemma scaled_dim_le:
  assumes L: "1600 < L" "L < 2 ^ 32" and d: "d \<le> L"
  shows "Math_round (fl64 (of_nat d * fl64 (1600 / of_nat L))) \<le> 1600"
proof -
  define K where "K = Math_round (fl64 (of_nat d * fl64 (1600 / of_nat L)))"
  define V where "V = 1600 * rat_of_nat d / of_nat L"
  have "rat_of_nat d \<le> of_nat L"
    using d by (simp only: of_nat_le_iff)
  then have "V \<le> 1600"
    using L by (simp add: V_def pos_divide_le_eq)
  moreover have "rat_of_int K - V \<le> 1/2"
    using scaled_dim [OF L d] unfolding K_def V_def by (rule abs_le_D1)
  ultimately have "rat_of_int K < 1601"
    by linarith
  then have "K < 1601"
    by simp
  then show ?thesis
    unfolding K_def by simp
qed

lemma scaled_longest:
  assumes L: "1600 < L" "L < 2 ^ 32"
  shows "Math_round (fl64 (of_nat L * fl64 (1600 / of_nat L))) = 1600"
proof -
  define K where "K = Math_round (fl64 (of_nat L * fl64 (1600 / of_nat L)))"
  have v: "1600 * rat_of_nat L / of_nat L = 1600"
    using L by simp
  have "\<bar>rat_of_int K - 1600\<bar> \<le> 1/2"
    using scaled_dim [OF L order_refl] unfolding K_def v .
  then have "- (rat_of_int K - 1600) \<le> 1/2"
    by (rule abs_le_D2)
  then have "rat_of_int K > 1599"
    by linarith
  then have "K > 1599"
    by simp
  moreover have "K \<le> 1600"
    unfolding K_def by (rule scaled_dim_le [OF L order_refl])
  ultimately show ?thesis
    unfolding K_def by simp
qed

lemma unat32_bound: "unat (w :: 32 word) < 2 ^ 32"
  using unsigned_less [of w, where ?'a = nat] by simp

lemma scaled_small:
  assumes "max w h \<le> 1600"
  shows "scaled w h = (int w, int h)"
proof -
  have m: "max (rat_of_nat w) (of_nat h) = of_nat (max w h)"
    by (simp add: max_def)
  have "\<not> rat_of_nat 1600 < of_nat (max w h)"
    using assms by (simp only: of_nat_less_iff not_less)
  then show ?thesis
    unfolding scaled_def MAX_DIMENSION_def Let_def m by simp
qed

lemma scaled_large:
  assumes "1600 < max w h"
  shows "scaled w h =
     (Math_round (fl64 (of_nat w * fl64 (1600 / of_nat (max w h)))),
      Math_round (fl64 (of_nat h * fl64 (1600 / of_nat (max w h)))))"
proof -
  have m: "max (rat_of_nat w) (of_nat h) = of_nat (max w h)"
    by (simp add: max_def)
  have "rat_of_nat 1600 < of_nat (max w h)"
    using assms by (simp only: of_nat_less_iff)
  then show ?thesis
    unfolding scaled_def MAX_DIMENSION_def Let_def m by simp
qed

lemma scaled_bounds:
  assumes big: "1600 < max w h" and w: "w < 2 ^ 32" and h: "h < 2 ^ 32"
  shows "fst (scaled w h) \<le> 1600 \<and> snd (scaled w h) \<le> 1600
       \<and> max (fst (scaled w h)) (snd (scaled w h)) = 1600
       \<and> \<bar>rat_of_int (fst (scaled w h)) - 1600 * of_nat w / of_nat (max w h)\<bar> \<le> 1/2
       \<and> \<bar>rat_of_int (snd (scaled w h)) - 1600 * of_nat h / of_nat (max w h)\<bar> \<le> 1/2"
proof -
  define L where "L = max w h"
  have L: "1600 < L" "L < 2 ^ 32"
    using big w h by (simp_all add: L_def max_def)
  have wl: "w \<le> L" and hl: "h \<le> L"
    by (simp_all add: L_def)
  have s: "scaled w h =
     (Math_round (fl64 (of_nat w * fl64 (1600 / of_nat L))),
      Math_round (fl64 (of_nat h * fl64 (1600 / of_nat L))))"
    unfolding L_def by (rule scaled_large [OF big])
  have "w = L \<or> h = L"
    by (auto simp: L_def max_def)
  then have "max (fst (scaled w h)) (snd (scaled w h)) = 1600"
    using scaled_longest [OF L] scaled_dim_le [OF L wl] scaled_dim_le [OF L hl]
    unfolding s by auto
  then show ?thesis
    using scaled_dim_le [OF L wl] scaled_dim_le [OF L hl] scaled_dim [OF L wl] scaled_dim [OF L hl]
    unfolding s L_def [symmetric] by simp
qed


lemma stem_extension:
  assumes "ext \<noteq> []" "CHR ''.'' \<notin> set ext"
  shows "stem (base @ ''.'' @ ext) = base"
proof -
  have r: "rev (base @ ''.'' @ ext) = rev ext @ CHR ''.'' # rev base"
    by simp
  have t: "takeWhile (\<lambda>c. c \<noteq> CHR ''.'') (rev ext @ CHR ''.'' # rev base) = rev ext"
    using assms(2) by (subst takeWhile_append2) auto
  have d: "dropWhile (\<lambda>c. c \<noteq> CHR ''.'') (rev ext @ CHR ''.'' # rev base) = CHR ''.'' # rev base"
    using assms(2) by (subst dropWhile_append2) auto
  show ?thesis
    unfolding stem_def r Let_def t d using assms(1) by simp
qed

text \<open>
  Claim C6. For an image that loads with width \<open>w\<close> and height \<open>h\<close>: when the longer
  of the two is at most 1600 the canvas keeps both; when it is above 1600 both canvas
  dimensions are at most 1600, the longer one is exactly 1600, and each lies within one half
  of the original dimension times \<open>1600 / max w h\<close>, the one scale factor, in the double
  arithmetic the code runs in. The canvas is encoded as \<open>image/jpeg\<close> at quality 0.85,
  and the resolved file carries the encoded bytes, the name with its last extension
  replaced by \<open>.jpg\<close>, the type \<open>image/jpeg\<close> and the original modification timestamp.
\<close>

theorem compressImage_scales:
  "startsWith (ftype file) ''image/'' \<and> decode env file = Loaded w h \<longrightarrow>
   (let L = max (unat w) (unat h); w' = fst (scaleDims w h); h' = snd (scaleDims w h) in
      (L \<le> 1600 \<longrightarrow> w' = int (unat w) \<and> h' = int (unat h))
    \<and> (1600 < L \<longrightarrow>
          w' \<le> 1600 \<and> h' \<le> 1600 \<and> max w' h' = 1600
        \<and> \<bar>rat_of_int w' - 1600 * of_nat (unat w) / of_nat L\<bar> \<le> 1/2
        \<and> \<bar>rat_of_int h' - 1600 * of_nat (unat h) / of_nat L\<bar> \<le> 1/2)
    \<and> JPEG_QUALITY = 85 / 100
    \<and> (\<forall>b. toBlob env file w' h' ''image/jpeg'' JPEG_QUALITY = Some b \<longrightarrow>
          compressImage env file =
            Resolved \<lparr>name = stem (name file) @ ''.jpg'', fsize = length b,
                      ftype = ''image/jpeg'', lastModified = lastModified file, blob = b\<rparr>))"
proof (intro impI, elim conjE)
  assume img: "startsWith (ftype file) ''image/''" and dec: "decode env file = Loaded w h"
  define L where "L = max (unat w) (unat h)"
  define w' where "w' = fst (scaleDims w h)"
  define h' where "h' = snd (scaleDims w h)"
  have small: "w' = int (unat w) \<and> h' = int (unat h)" if "L \<le> 1600"
  proof -
    have "scaleDims w h = (int (unat w), int (unat h))"
      unfolding scaleDims_def using that [unfolded L_def] by (rule scaled_small)
    then show ?thesis
      by (simp add: w'_def h'_def)
  qed
  have large: "w' \<le> 1600 \<and> h' \<le> 1600 \<and> max w' h' = 1600
       \<and> \<bar>rat_of_int w' - 1600 * of_nat (unat w) / of_nat L\<bar> \<le> 1/2
       \<and> \<bar>rat_of_int h' - 1600 * of_nat (unat h) / of_nat L\<bar> \<le> 1/2"
    if "1600 < L"
    unfolding w'_def h'_def scaleDims_def L_def
    using that [unfolded L_def] unat32_bound unat32_bound by (rule scaled_bounds)
  have enc: "compressImage env file =
            Resolved \<lparr>name = stem (name file) @ ''.jpg'', fsize = length b,
                      ftype = ''image/jpeg'', lastModified = lastModified file, blob = b\<rparr>"
    if "toBlob env file w' h' ''image/jpeg'' JPEG_QUALITY = Some b" for b
    using that img dec by (simp add: compressImage_def case_prod_beta w'_def h'_def)
  have q: "JPEG_QUALITY = 85 / 100"
    by (simp add: JPEG_QUALITY_def)
  show "let L = max (unat w) (unat h); w' = fst (scaleDims w h); h' = snd (scaleDims w h) in
      (L \<le> 1600 \<longrightarrow> w' = int (unat w) \<and> h' = int (unat h))
    \<and> (1600 < L \<longrightarrow>
          w' \<le> 1600 \<and> h' \<le> 1600 \<and> max w' h' = 1600
        \<and> \<bar>rat_of_int w' - 1600 * of_nat (unat w) / of_nat L\<bar> \<le> 1/2
        \<and> \<bar>rat_of_int h' - 1600 * of_nat (unat h) / of_nat L\<bar> \<le> 1/2)
    \<and> JPEG_QUALITY = 85 / 100
    \<and> (\<forall>b. toBlob env file w' h' ''image/jpeg'' JPEG_QUALITY = Some b \<longrightarrow>
          compressImage env file =
            Resolved \<lparr>name = stem (name file) @ ''.jpg'', fsize = length b,
                      ftype = ''image/jpeg'', lastModified = lastModified file, blob = b\<rparr>)"
    unfolding Let_def L_def [symmetric] w'_def [symmetric] h'_def [symmetric]
    using small large enc q by blast
qed

text \<open>A 4032 by 3024 PNG named \<open>label.front.png\<close>; the encoder answers only the
  request for a 1600 by 1200 JPEG at quality 0.85.\<close>

theorem compressImage_scales_witness:
  "scaleDims 4032 3024 = (1600, 1200)
 \<and> compressImage
      \<lparr>decode = (\<lambda>f. Loaded 4032 3024),
       toBlob = (\<lambda>f w h t q.
         if w = 1600 \<and> h = 1200 \<and> t = ''image/jpeg'' \<and> q = 85 / 100 then Some [9, 9]
         else None)\<rparr>
      \<lparr>name = ''label.front.png'', fsize = 5, ftype = ''image/png'',
       lastModified = 1700000000000, blob = [1, 2, 3, 4, 5]\<rparr>
    = Resolved \<lparr>name = ''label.front.jpg'', fsize = 2, ftype = ''image/jpeg'',
                lastModified = 1700000000000, blob = [9, 9]\<rparr>"
proof -
  define env where "env =
      \<lparr>decode = (\<lambda>f. Loaded 4032 3024),
       toBlob = (\<lambda>f w h t q.
         if w = (1600::int) \<and> h = (1200::int) \<and> t = ''image/jpeg'' \<and> q = (85 / 100 :: rat)
         then Some [9, 9::nat] else None)\<rparr>"
  define png where "png =
      \<lparr>name = ''label.front.png'', fsize = 5, ftype = ''image/png'',
       lastModified = 1700000000000, blob = [1, 2, 3, 4, 5]\<rparr>"
  have e1: "Math_round (fl64 (4032 * fl64 (1600 / 4032))) = 1600"
    by code_simp
  have e2: "Math_round (fl64 (3024 * fl64 (1600 / 4032))) = 1200"
    by code_simp
  have s: "scaleDims 4032 3024 = (1600, 1200)"
    using e1 e2 by (simp add: scaleDims_def scaled_def MAX_DIMENSION_def Let_def)
  have img: "startsWith (ftype png) ''image/''"
    unfolding png_def by code_simp
  have dec: "decode env png = Loaded 4032 3024"
    by (simp add: env_def)
  have st: "stem (name png) = ''label.front''"
    unfolding png_def by code_simp
  have blob: "toBlob env png 1600 1200 ''image/jpeg'' JPEG_QUALITY = Some [9, 9]"
    by (simp add: env_def JPEG_QUALITY_def)
  have "compressImage env png
      = Resolved \<lparr>name = ''label.front.jpg'', fsize = 2, ftype = ''image/jpeg'',
                lastModified = lastModified png, blob = [9, 9]\<rparr>"
    using compressImage_scales [of png env 4032 3024] img dec blob
    by (simp add: Let_def s st)
  then show ?thesis
    using s unfolding env_def png_def by simp
qed

section \<open>UploadScheduler: properties\<close>

lemma inflight_snoc: "inflight (t @ [a]) = inflightStep (inflight t) a"
  by (simp add: inflight_def)

lemma uploadsOf_append: "uploadsOf (t @ u) = uploadsOf t @ uploadsOf u"
  by (induction t rule: uploadsOf.induct) auto

lemma settledOf_append: "settledOf (t @ u) = settledOf t @ settledOf u"
  by (induction t rule: settledOf.induct) auto

lemma neverExceeds_snoc:
  "neverExceeds k (t @ [a]) \<longleftrightarrow> neverExceeds k t \<and> length (inflight (t @ [a])) \<le> k"
proof -
  have "(\<forall>i \<le> Suc (length t). length (inflight (take i (t @ [a]))) \<le> k)
        \<longleftrightarrow> (\<forall>i \<le> length t. length (inflight (take i (t @ [a]))) \<le> k)
            \<and> length (inflight (take (Suc (length t)) (t @ [a]))) \<le> k"
    by (auto simp: le_Suc_eq)
  then show ?thesis
    by (simp add: neverExceeds_def)
qed

lemma zip_upt_snoc:
  "n < length xs \<Longrightarrow> zip ([0 ..< n] @ [n]) xs = zip [0 ..< n] xs @ [(n, xs ! n)]"
proof -
  assume n: "n < length xs"
  have "zip ([0 ..< n] @ [n]) xs = zip ([0 ..< n] @ [n]) (take n xs @ drop n xs)"
    by simp
  also have "\<dots> = zip [0 ..< n] (take n xs) @ zip [n] (drop n xs)"
    using n by (subst zip_append) auto
  also have "zip [n] (drop n xs) = [(n, xs ! n)]"
    using n by (cases "drop n xs") (auto simp: hd_drop_conv_nth dest: arg_cong [where f = hd])
  also have "zip [0 ..< n] (take n xs) = zip [0 ..< n] xs"
    by (simp add: zip_eq_conv list_eq_iff_nth_eq)
  finally show ?thesis .
qed

lemma topUp_step_inv:
  assumes "schedInv net chunks s"
    and "length (active s) < MAX_CONCURRENT" and "chunkIndex s < length chunks"
  shows "schedInv net chunks
           (s\<lparr>chunkIndex := chunkIndex s + 1,
              active := active s @ [chunkIndex s],
              trace := trace s @ [UploadChunk jobId (chunkIndex s) (chunks ! chunkIndex s)]\<rparr>)"
  using assms unfolding schedInv_def
  apply (simp add: inflight_snoc uploadsOf_append settledOf_append neverExceeds_snoc zip_upt_snoc)
  apply (auto simp: lessThan_Suc)
  done


lemma topUp_inv: "schedInv net chunks s \<Longrightarrow> schedInv net chunks (topUp jobId chunks s)"
proof (induction jobId chunks s rule: topUp.induct)
  case (1 jobId chunks s)
  show ?case
  proof (cases "length (active s) < MAX_CONCURRENT \<and> chunkIndex s < length chunks")
    case True
    then have "schedInv net chunks
           (s\<lparr>chunkIndex := chunkIndex s + 1,
              active := active s @ [chunkIndex s],
              trace := trace s @ [UploadChunk jobId (chunkIndex s) (chunks ! chunkIndex s)]\<rparr>)"
      using topUp_step_inv [OF "1.prems"] by simp
    with True "1.IH" show ?thesis
      by (subst topUp.simps) simp
  next
    case False
    with "1.prems" show ?thesis
      by (subst topUp.simps) auto
  qed
qed

lemma settled_inv:
  assumes inv: "schedInv net chunks s" and mem: "idx \<in> set (active s)"
  shows "schedInv net chunks
           (s\<lparr>active := filter (\<lambda>p. p \<noteq> idx) (active s),
              trace := trace s @ [Settled idx res]\<rparr>)"
proof -
  have len: "length (filter (\<lambda>p. p \<noteq> idx) (active s)) \<le> MAX_CONCURRENT"
    using inv le_trans [OF length_filter_le] unfolding schedInv_def by blast
  have fresh: "idx \<notin> set (settledOf (trace s))"
    using inv mem unfolding schedInv_def by blast
  have sets: "insert idx (set (settledOf (trace s))) \<union> {x \<in> set (active s). x \<noteq> idx}
      = set (settledOf (trace s)) \<union> set (active s)"
    using mem by auto
  have disj: "insert idx (set (settledOf (trace s))) \<inter> {x \<in> set (active s). x \<noteq> idx} = {}"
    using inv unfolding schedInv_def by auto
  show ?thesis
    using inv fresh sets disj len unfolding schedInv_def
    by (simp add: inflight_snoc uploadsOf_append settledOf_append neverExceeds_snoc)
qed

lemma logError_inv:
  assumes inv: "schedInv net chunks s"
  shows "schedInv net chunks (s\<lparr>trace := trace s @ [LogError idx err]\<rparr>)"
  using inv unfolding schedInv_def
  by (simp add: inflight_snoc uploadsOf_append settledOf_append neverExceeds_snoc)

lemma settle_inv:
  assumes inv: "schedInv net chunks s" and ne: "active s \<noteq> []"
  shows "schedInv net chunks (settle net s)"
proof -
  let ?idx = "active s ! (race net (active s) mod length (active s))"
  have mem: "?idx \<in> set (active s)"
    using ne by simp
  show ?thesis
  proof (cases "uploadOutcome net ?idx")
    case None
    then show ?thesis
      using settled_inv [OF inv mem, of None] by (simp add: settle_def Let_def)
  next
    case (Some err)
    then show ?thesis
      using logError_inv [OF settled_inv [OF inv mem, of "Some err"], of ?idx err]
      by (simp add: settle_def Let_def)
  qed
qed

lemma topUp_logged: "logged net (trace s) \<Longrightarrow> logged net (trace (topUp jobId chunks s))"
proof (induction jobId chunks s rule: topUp.induct)
  case (1 jobId chunks s)
  show ?case
  proof (cases "length (active s) < MAX_CONCURRENT \<and> chunkIndex s < length chunks")
    case True
    have "logged net (trace s @ [UploadChunk jobId (chunkIndex s) (chunks ! chunkIndex s)])"
      using "1.prems" by (simp add: logged_def settledOf_append)
    with True "1.IH" show ?thesis
      by (subst topUp.simps) simp
  next
    case False
    with "1.prems" show ?thesis
      by (subst topUp.simps) auto
  qed
qed

lemma settle_logged: "logged net (trace s) \<Longrightarrow> logged net (trace (settle net s))"
  by (auto simp: logged_def settle_def Let_def settledOf_append split: option.splits)

lemma uploadLoop_inv:
  "schedInv net chunks s \<Longrightarrow> logged net (trace s) \<Longrightarrow>
   schedInv net chunks (uploadLoop net jobId chunks s)
   \<and> logged net (trace (uploadLoop net jobId chunks s))
   \<and> chunkIndex (uploadLoop net jobId chunks s) = length chunks
   \<and> active (uploadLoop net jobId chunks s) = []"
proof (induction net jobId chunks s rule: uploadLoop.induct)
  case (1 net jobId chunks s)
  show ?case
  proof (cases "chunkIndex s < length chunks \<or> length (active s) > 0")
    case False
    with "1.prems" show ?thesis
      by (subst (1 2 3 4) uploadLoop.simps) (auto simp: schedInv_def)
  next
    case True
    then have ne: "active (topUp jobId chunks s) \<noteq> []"
      using topUp_active_nonempty [of s chunks jobId] by auto
    have "schedInv net chunks (settle net (topUp jobId chunks s))"
      using settle_inv [OF topUp_inv [OF "1.prems"(1)] ne] .
    moreover have "logged net (trace (settle net (topUp jobId chunks s)))"
      using settle_logged [OF topUp_logged [OF "1.prems"(2)]] .
    ultimately show ?thesis
      using "1.IH"(1) True ne
      by (subst (1 2 3 4) uploadLoop.simps) simp
  qed
qed


lemma schedInv_init: "schedInv net chunks \<lparr>chunkIndex = 0, active = [], trace = []\<rparr>"
  by (simp add: schedInv_def inflight_def neverExceeds_def)

lemma list_ex_isCompleteJob_iff: "list_ex isCompleteJob t \<longleftrightarrow> (\<exists>j. CompleteJob j \<in> set t)"
proof (induction t)
  case Nil
  then show ?case by simp
next
  case (Cons a t)
  then show ?case by (cases a) auto
qed

text \<open>
  Claim C3. For every job id, file list and behaviour of the network: after every prefix
  of the actions of \<open>uploadAllChunked\<close> at most 4 chunk uploads are outstanding; the
  uploads issued are the chunks of the partition, each exactly once and in order, whatever
  the outcome of earlier ones; every chunk upload is observed settled exactly once, and a
  failed one is written to the console; and the actions end with the one and only
  \<open>CompleteJob\<close>, after every upload and every settlement.
\<close>

theorem uploadAllChunked_schedule:
  "let t = fst (uploadAllChunked net jobId fs); chunks = mkChunks 0 fs in
     (\<forall>i \<le> length t. length (inflight (take i t)) \<le> 4)
   \<and> uploadsOf t = zip [0 ..< length chunks] chunks
   \<and> distinct (settledOf t) \<and> set (settledOf t) = {..< length chunks}
   \<and> (\<forall>idx err. idx < length chunks \<and> uploadOutcome net idx = Some err
          \<longrightarrow> LogError idx err \<in> set t)
   \<and> (\<exists>body. t = body @ [CompleteJob jobId] \<and> \<not> list_ex isCompleteJob body
          \<and> settledOf body = settledOf t \<and> uploadsOf body = uploadsOf t)"
proof -
  define chunks where "chunks = mkChunks 0 fs"
  define s where "s = uploadLoop net jobId chunks \<lparr>chunkIndex = 0, active = [], trace = []\<rparr>"
  define t where "t = trace s @ [CompleteJob jobId]"
  have t: "fst (uploadAllChunked net jobId fs) = t"
    by (simp add: uploadAllChunked_def Let_def t_def s_def chunks_def)
  have fin: "schedInv net chunks s \<and> logged net (trace s)
      \<and> chunkIndex s = length chunks \<and> active s = []"
    unfolding s_def
    by (rule uploadLoop_inv [OF schedInv_init]) (simp add: logged_def)
  have bound: "\<forall>i \<le> length t. length (inflight (take i t)) \<le> 4"
    using fin neverExceeds_snoc [of MAX_CONCURRENT "trace s" "CompleteJob jobId"]
    by (simp add: t_def schedInv_def inflight_snoc neverExceeds_def MAX_CONCURRENT_def)
  have ups: "uploadsOf t = zip [0 ..< length chunks] chunks"
    using fin by (simp add: t_def schedInv_def uploadsOf_append)
  have setl: "distinct (settledOf t) \<and> set (settledOf t) = {..< length chunks}"
    using fin by (auto simp: t_def schedInv_def settledOf_append)
  have logs: "\<forall>idx err. idx < length chunks \<and> uploadOutcome net idx = Some err
          \<longrightarrow> LogError idx err \<in> set t"
    using fin setl unfolding logged_def t_def by (auto simp: settledOf_append)
  have last: "\<exists>body. t = body @ [CompleteJob jobId] \<and> \<not> list_ex isCompleteJob body
          \<and> settledOf body = settledOf t \<and> uploadsOf body = uploadsOf t"
    using fin by (intro exI [of _ "trace s"]) (simp add: t_def schedInv_def settledOf_append uploadsOf_append)
  show ?thesis
    unfolding t Let_def chunks_def [symmetric]
    using bound ups setl logs last by blast
qed

text \<open>Sixteen files make six chunks; the second upload fails, and of the outstanding
  requests the second in the list always settles first.\<close>

theorem uploadAllChunked_schedule_witness:
  "let net = \<lparr>uploadOutcome = (\<lambda>i. if i = 1 then Some ''Upload failed: 500'' else None),
                race = (\<lambda>a. 1), completeOutcome = None\<rparr>;
       fs = replicate 16 \<lparr>name = ''a.png'', fsize = 1, ftype = ''image/png'',
                            lastModified = 0, blob = []\<rparr>;
       t = fst (uploadAllChunked net ''job'' fs)
   in settledOf t = [1, 2, 3, 4, 5, 0]
    \<and> map fst (uploadsOf t) = [0, 1, 2, 3, 4, 5]
    \<and> (\<forall>i \<le> length t. length (inflight (take i t)) \<le> 4)
    \<and> LogError 1 ''Upload failed: 500'' \<in> set t
    \<and> (\<exists>body. t = body @ [CompleteJob ''job''] \<and> \<not> list_ex isCompleteJob body)"
proof -
  let ?net = "\<lparr>uploadOutcome = (\<lambda>i. if i = 1 then Some ''Upload failed: 500'' else None),
                race = (\<lambda>a. 1), completeOutcome = None\<rparr>"
  let ?fs = "replicate 16 \<lparr>name = ''a.png'', fsize = 1, ftype = ''image/png'',
                            lastModified = 0, blob = []\<rparr>"
  have ev: "settledOf (fst (uploadAllChunked ?net ''job'' ?fs)) = [1, 2, 3, 4, 5, 0]"
    by code_simp
  have len: "length (mkChunks 0 ?fs) = 6"
    by code_simp
  have up: "[0 ..< 6] = [0, 1, 2, 3, 4, 5::nat]"
    by code_simp
  from uploadAllChunked_schedule [of ?net "''job''" ?fs] ev len up show ?thesis
    by (auto simp: Let_def)
qed

section \<open>AnalysisController: properties\<close>

lemma ui_closeRef: "ui (closeRef w) = (ui w)\<lparr>eventSourceRef := None\<rparr>"
  by (cases "eventSourceRef (ui w)") (simp_all add: closeRef_def)

lemma closed_closeRef:
  "closed (closeRef w) = (case eventSourceRef (ui w) of Some k \<Rightarrow> closed w @ [k] | None \<Rightarrow> closed w)"
  by (simp add: closeRef_def split: option.split)

lemma opened_closeRef: "opened (closeRef w) = opened w"
  by (simp add: closeRef_def split: option.split)

lemma calls_closeRef: "calls (closeRef w) = calls w"
  by (simp add: closeRef_def split: option.split)

lemma rendered_closeRef: "rendered (closeRef w) = rendered w"
  by (simp add: closeRef_def split: option.split)

lemmas closeRef_simps = ui_closeRef closed_closeRef opened_closeRef calls_closeRef rendered_closeRef

lemma length_update:
  "length (AList.update k v al) = (if k \<in> fst ` set al then length al else Suc (length al))"
  by (induction al) auto

lemma completionDue_deps: "deps h = deps h' \<Longrightarrow> completionDue h = completionDue h'"
  by (simp add: deps_def completionDue_def)

lemma completionEffect_notDue: "\<not> completionDue (ui (completionEffect now w))"
  by (simp add: completionEffect_def closeRef_simps completionDue_def)

lemma completionEffect_idle: "\<not> completionDue (ui w) \<Longrightarrow> completionEffect now w = w"
  by (simp add: completionEffect_def)

lemma ui_render_notDue: "\<not> completionDue (ui w) \<Longrightarrow> ui (render now w) = ui w"
  by (simp add: render_def completionEffect_idle)

lemma step_Render: "step now Render w = render now w"
  by (simp add: step_def)

lemma step_other: "e \<noteq> Render \<Longrightarrow> \<not> isUserCall e \<Longrightarrow> step now e w = dispatch now e w"
  by (simp add: step_def)

lemma step_userCall: "isUserCall e \<Longrightarrow> step now e w = render now (dispatch now e w)"
  by (cases e) (simp_all add: step_def)

subsection \<open>The completion effect runs when its condition comes to hold\<close>

lemma renderInv_alt:
  "renderInv w \<longleftrightarrow>
     (\<forall>h. deps h = rendered w \<and> completionDue h
        \<longrightarrow> status (ui w) \<noteq> Uploading \<and> status (ui w) \<noteq> Streaming)"
proof -
  obtain n t s where r: "rendered w = (n, t, s)"
    by (cases "rendered w") auto
  let ?h = "initialHook\<lparr>results := replicate n (0, Success []), total_files := t, status := s\<rparr>"
  have d: "deps ?h = (n, t, s)"
    by (simp add: deps_def)
  show ?thesis
  proof
    assume "renderInv w"
    then show "\<forall>h. deps h = rendered w \<and> completionDue h
        \<longrightarrow> status (ui w) \<noteq> Uploading \<and> status (ui w) \<noteq> Streaming"
      using r by (auto simp: renderInv_def deps_def completionDue_def)
  next
    assume a: "\<forall>h. deps h = rendered w \<and> completionDue h
        \<longrightarrow> status (ui w) \<noteq> Uploading \<and> status (ui w) \<noteq> Streaming"
    have "status (ui w) \<noteq> Uploading \<and> status (ui w) \<noteq> Streaming"
      if "t > 0" "int n \<ge> t" "s = Streaming \<or> s = Uploading"
    proof -
      have "completionDue ?h"
        using that by (auto simp: completionDue_def)
      with a d r show ?thesis by metis
    qed
    then show "renderInv w"
      using r by (auto simp: renderInv_def)
  qed
qed

lemma renderInv_fresh: "\<not> completionDue (ui w) \<Longrightarrow> renderInv (w\<lparr>rendered := deps (ui w)\<rparr>)"
  by (auto simp: renderInv_def deps_def completionDue_def)

lemma renderInv_due_changed:
  assumes "renderInv w" "completionDue (ui w)"
  shows "deps (ui w) \<noteq> rendered w"
proof
  assume "deps (ui w) = rendered w"
  with assms have "status (ui w) \<noteq> Uploading \<and> status (ui w) \<noteq> Streaming"
    unfolding renderInv_alt by blast
  with assms(2) show False
    by (auto simp: completionDue_def)
qed

lemma render_due:
  assumes "renderInv w" "completionDue (ui w)"
  shows "render now w = (completionEffect now w)\<lparr>rendered := deps (ui w)\<rparr>"
  using renderInv_due_changed [OF assms] by (simp add: render_def)

lemma renderInv_render:
  assumes "renderInv w"
  shows "renderInv (render now w)"
proof (cases "completionDue (ui w)")
  case True
  have "status (ui ((completionEffect now w)\<lparr>rendered := deps (ui w)\<rparr>)) = Complete"
    using True by (simp add: completionEffect_def closeRef_simps)
  then show ?thesis
    unfolding render_due [OF assms True] by (auto simp: renderInv_def)
next
  case False
  show ?thesis
  proof (cases "deps (ui w) = rendered w")
    case True
    with assms show ?thesis by (simp add: render_def)
  next
    case ne: False
    have "render now w = w\<lparr>rendered := deps (ui w)\<rparr>"
      using ne False by (simp add: render_def completionEffect_idle)
    moreover have "renderInv (w\<lparr>rendered := deps (ui w)\<rparr>)"
      using False by (rule renderInv_fresh)
    ultimately show ?thesis by simp
  qed
qed

lemma renderInv_render_notDue:
  assumes "\<not> completionDue (ui w)"
  shows "renderInv (render now w)"
proof (cases "deps (ui w) = rendered w")
  case True
  then show ?thesis
    using renderInv_fresh [OF assms] by (simp add: render_def)
next
  case ne: False
  have "render now w = w\<lparr>rendered := deps (ui w)\<rparr>"
    using ne assms by (simp add: render_def completionEffect_idle)
  moreover have "renderInv (w\<lparr>rendered := deps (ui w)\<rparr>)"
    using assms by (rule renderInv_fresh)
  ultimately show ?thesis by simp
qed

lemma dispatch_rendered: "rendered (dispatch now e w) = rendered w"
  by (cases e)
     (auto simp: dispatch_def reset_def analyzeStart_def createJobResolved_def catchBlock_def
        setPhase_def onStream_def closeRef_simps Let_def
        split: option.splits settled.splits streamEvent.splits)

lemma dispatch_busy:
  assumes "status (ui (dispatch now e w)) = Uploading \<or> status (ui (dispatch now e w)) = Streaming"
    and "\<not> isAnalyze e"
  shows "status (ui w) = Uploading \<or> status (ui w) = Streaming"
  using assms
  by (cases e)
     (auto simp: dispatch_def reset_def createJobResolved_def catchBlock_def
        setPhase_def onStream_def closeRef_simps Let_def
        split: if_splits option.splits settled.splits streamEvent.splits)

lemma userCall_notDue: "isUserCall e \<Longrightarrow> \<not> completionDue (ui (dispatch now e w))"
  by (cases e)
     (auto simp: dispatch_def reset_def analyzeStart_def closeRef_simps Let_def completionDue_def)

lemma renderInv_step:
  assumes "renderInv w"
  shows "renderInv (step now e w)"
proof (cases "e = Render")
  case True
  with assms show ?thesis by (simp add: step_Render renderInv_render)
next
  case nr: False
  show ?thesis
  proof (cases "isUserCall e")
    case True
    then show ?thesis
      by (simp add: step_userCall renderInv_render_notDue userCall_notDue)
  next
    case False
    then have na: "\<not> isAnalyze e" by (cases e) auto
    have "renderInv (dispatch now e w)"
      unfolding renderInv_alt dispatch_rendered
      using assms dispatch_busy [OF _ na, of now w] unfolding renderInv_alt by blast
    with nr False show ?thesis by (simp add: step_other)
  qed
qed

lemma renderInv_run: "renderInv w \<Longrightarrow> renderInv (run w es)"
  by (induction w es rule: run.induct) (simp_all add: renderInv_step)

lemma renderInv_initial: "renderInv initialWorld"
  by (simp add: renderInv_def initialWorld_def initialHook_def deps_def)


subsection \<open>Per-item errors and connection errors\<close>

lemma step_itemError:
  assumes "live w k" "0 \<le> i"
  shows "ui (step now (Stream k (ItemError i p)) w)
       = (ui w)\<lparr>results := AList.update i (Failure p) (results (ui w))\<rparr>"
  using assms by (simp add: step_def dispatch_def onStream_def)

lemma step_result:
  assumes "live w k"
  shows "ui (step now (Stream k (Result i q)) w)
       = (ui w)\<lparr>results := AList.update i (Success q) (results (ui w)),
                 status := (if status (ui w) = Uploading then Streaming else status (ui w))\<rparr>"
  using assms by (simp add: step_def dispatch_def onStream_def)

lemma rendered_step_stream: "rendered (step now (Stream k ev) w) = rendered w"
  by (simp add: step_def dispatch_rendered)

lemma status_connectionError:
  "status (ui (step now (Stream k (ConnectionError gone)) w)) = status (ui w)"
  by (simp add: step_def dispatch_def onStream_def)

lemma status_render:
  "status (ui (render now w))
     = (if completionDue (ui w) \<and> deps (ui w) \<noteq> rendered w then Complete else status (ui w))"
  by (simp add: render_def completionEffect_def closeRef_simps)

lemma render_same_outcome:
  assumes inv: "renderInv w" and live: "live w k" and i: "0 \<le> i"
  shows "status (ui (step t Render (step now (Stream k (ItemError i p)) w))) = Complete
     \<longleftrightarrow> status (ui (step t Render (step now (Stream k (Result i q)) w))) = Complete"
proof -
  let ?we = "step now (Stream k (ItemError i p)) w"
  let ?wr = "step now (Stream k (Result i q)) w"
  have ie: "renderInv ?we" and ir: "renderInv ?wr"
    using inv by (rule renderInv_step)+
  have due: "completionDue (ui ?we) \<longleftrightarrow> completionDue (ui ?wr)"
    using live i by (auto simp: step_itemError step_result completionDue_def length_update)
  have st: "status (ui ?we) = Complete \<longleftrightarrow> status (ui ?wr) = Complete"
    using live i by (auto simp: step_itemError step_result)
  show ?thesis
    using due st renderInv_due_changed [OF ie] renderInv_due_changed [OF ir]
    by (auto simp: step_Render status_render)
qed

text \<open>
  Claim C7. In every reachable state, an \<^verbatim>\<open>error\<close> event of a live subscription that
  carries a client index \<open>i \<ge> 0\<close> stores a failure record under \<open>i\<close> by the same
  \<^verbatim>\<open>Map.set\<close> as a \<^verbatim>\<open>result\<close> event stores a success record; progress is the same
  after either, the completion condition holds after the one exactly if it holds after the
  other, and the next render ends in \<open>Complete\<close> for both or for neither. The browser's
  own \<^verbatim>\<open>error\<close> event, which carries no data, never changes the status.
\<close>

theorem itemError_stored_like_result:
  "let w = run initialWorld es;
       we = step now (Stream k (ItemError i p)) w;
       wr = step now (Stream k (Result i q)) w
   in (live w k \<and> 0 \<le> i \<longrightarrow>
         results (ui we) = AList.update i (Failure p) (results (ui w))
       \<and> results (ui wr) = AList.update i (Success q) (results (ui w))
       \<and> progress (ui we) = progress (ui wr)
       \<and> (completionDue (ui we) \<longleftrightarrow> completionDue (ui wr))
       \<and> (status (ui (step t Render we)) = Complete
            \<longleftrightarrow> status (ui (step t Render wr)) = Complete))
    \<and> status (ui (step now (Stream k (ConnectionError gone)) w)) = status (ui w)"
proof -
  define w where "w = run initialWorld es"
  have inv: "renderInv w"
    unfolding w_def by (rule renderInv_run [OF renderInv_initial])
  have "completionDue (ui (step now (Stream k (ItemError i p)) w))
      \<longleftrightarrow> completionDue (ui (step now (Stream k (Result i q)) w))"
    if "live w k" "0 \<le> i"
    using that by (auto simp: step_itemError step_result completionDue_def length_update)
  moreover have "progress (ui (step now (Stream k (ItemError i p)) w))
      = progress (ui (step now (Stream k (Result i q)) w))"
    if "live w k" "0 \<le> i"
    using that by (simp add: progress_def step_itemError step_result length_update)
  ultimately show ?thesis
    unfolding Let_def w_def [symmetric]
    using step_itemError [of w k i now p] step_result [of w k now i q]
      render_same_outcome [OF inv, of k i t now p q] status_connectionError [of now k gone w]
    by simp
qed

text \<open>One file; the job is created and its only item fails.\<close>

theorem itemError_stored_like_result_witness:
  "live (run initialWorld
           [(0, Analyze [\<lparr>name = ''a.png'', fsize = 1, ftype = ''image/png'',
                           lastModified = 0, blob = []\<rparr>]),
            (5, CreateJobResolved 0 ''job-1'' None)]) 0
   \<and> results (ui (step 9 (Stream 0 (ItemError 0 ''timeout''))
        (run initialWorld
           [(0, Analyze [\<lparr>name = ''a.png'', fsize = 1, ftype = ''image/png'',
                           lastModified = 0, blob = []\<rparr>]),
            (5, CreateJobResolved 0 ''job-1'' None)]))) = [(0, Failure ''timeout'')]
   \<and> status (ui (step 10 Render (step 9 (Stream 0 (ItemError 0 ''timeout''))
        (run initialWorld
           [(0, Analyze [\<lparr>name = ''a.png'', fsize = 1, ftype = ''image/png'',
                           lastModified = 0, blob = []\<rparr>]),
            (5, CreateJobResolved 0 ''job-1'' None)])))) = Complete
   \<and> status (ui (step 9 (Stream 0 (ConnectionError True))
        (run initialWorld
           [(0, Analyze [\<lparr>name = ''a.png'', fsize = 1, ftype = ''image/png'',
                           lastModified = 0, blob = []\<rparr>]),
            (5, CreateJobResolved 0 ''job-1'' None)]))) = Uploading"
proof -
  let ?es = "[(0, Analyze [\<lparr>name = ''a.png'', fsize = 1, ftype = ''image/png'',
                           lastModified = 0, blob = []\<rparr>]),
            (5, CreateJobResolved 0 ''job-1'' None)]"
  have l: "live (run initialWorld ?es) 0"
    by code_simp
  have r: "results (ui (run initialWorld ?es)) = []"
    by code_simp
  have s: "status (ui (run initialWorld ?es)) = Uploading"
    by code_simp
  have c: "status (ui (step 10 Render (step 9 (Stream 0 (Result 0 ''ok''))
             (run initialWorld ?es)))) = Complete"
    by code_simp
  from itemError_stored_like_result [of ?es 9 0 0 "''timeout''" "''ok''" 10 True] l r s c
  show ?thesis
    by (simp add: Let_def)
qed

subsection \<open>The upload phase rejecting\<close>

lemma uploadAllChunked_outcome:
  "snd (uploadAllChunked net jobId fs)
     = (case completeOutcome net of None \<Rightarrow> Resolved () | Some msg \<Rightarrow> Rejected msg)"
  by (simp add: uploadAllChunked_def Let_def)

lemma step_upload_rejected:
  assumes "phaseOf w k = AwaitUpload"
  shows "status (ui (step now (UploadSettled k (Rejected msg)) w)) = Error
       \<and> error (ui (step now (UploadSettled k (Rejected msg)) w)) = Some msg
       \<and> eventSourceRef (ui (step now (UploadSettled k (Rejected msg)) w)) = None
       \<and> (\<forall>j. eventSourceRef (ui w) = Some j
              \<longrightarrow> j \<in> set (closed (step now (UploadSettled k (Rejected msg)) w)))"
  using assms
  by (simp add: step_def dispatch_def catchBlock_def setPhase_def closeRef_simps)

lemma step_upload_resolved: "ui (step now (UploadSettled k (Resolved u)) w) = ui w"
  by (simp add: step_def dispatch_def setPhase_def)

text \<open>
  Claim C10. The promise of \<open>uploadAllChunked\<close> rejects exactly when the
  \<^verbatim>\<open>completeJob\<close> request fails, whatever the outcomes of the chunk uploads. When it
  rejects while call \<open>k\<close> waits for it, whatever the status then is, the status
  becomes \<open>Error\<close>, the message is recorded, and the subscription in the ref is closed
  and the ref cleared. When \<^verbatim>\<open>completeJob\<close> succeeds, the hook's state is untouched even if
  chunk uploads failed.
\<close>

theorem completeJob_failure_is_fatal:
  "let out = snd (uploadAllChunked net jobId fs);
       w' = step now (UploadSettled k out) w
   in (\<forall>msg. out = Rejected msg \<longleftrightarrow> completeOutcome net = Some msg)
    \<and> (\<forall>msg. phaseOf w k = AwaitUpload \<and> completeOutcome net = Some msg \<longrightarrow>
          status (ui w') = Error \<and> error (ui w') = Some msg
        \<and> eventSourceRef (ui w') = None
        \<and> (\<forall>j. eventSourceRef (ui w) = Some j \<longrightarrow> j \<in> set (closed w')))
    \<and> (completeOutcome net = None \<longrightarrow> ui w' = ui w)"
proof (cases "completeOutcome net")
  case None
  then show ?thesis
    by (simp add: uploadAllChunked_outcome step_upload_resolved)
next
  case (Some m)
  then show ?thesis
    using step_upload_rejected [of w k now m]
    by (simp add: uploadAllChunked_outcome)
qed

text \<open>All results are in and the status is \<open>Complete\<close> when \<^verbatim>\<open>completeJob\<close> fails;
  and a run in which every chunk upload fails but \<^verbatim>\<open>completeJob\<close> succeeds.\<close>

theorem completeJob_failure_is_fatal_witness:
  "phaseOf (run initialWorld
      [(0, Analyze [\<lparr>name = ''a.png'', fsize = 1, ftype = ''image/png'',
                      lastModified = 0, blob = []\<rparr>]),
       (1, CreateJobResolved 0 ''job-1'' None),
       (2, Stream 0 (Result 0 ''r0'')), (3, Render)]) 0 = AwaitUpload
 \<and> status (ui (run initialWorld
      [(0, Analyze [\<lparr>name = ''a.png'', fsize = 1, ftype = ''image/png'',
                      lastModified = 0, blob = []\<rparr>]),
       (1, CreateJobResolved 0 ''job-1'' None),
       (2, Stream 0 (Result 0 ''r0'')), (3, Render)])) = Complete
 \<and> status (ui (step 4
      (UploadSettled 0 (snd (uploadAllChunked
         \<lparr>uploadOutcome = (\<lambda>i. None), race = (\<lambda>a. 0),
            completeOutcome = Some ''Complete failed: 500''\<rparr>
         ''job-1''
         [\<lparr>name = ''a.png'', fsize = 1, ftype = ''image/png'', lastModified = 0, blob = []\<rparr>])))
      (run initialWorld
        [(0, Analyze [\<lparr>name = ''a.png'', fsize = 1, ftype = ''image/png'',
                        lastModified = 0, blob = []\<rparr>]),
         (1, CreateJobResolved 0 ''job-1'' None),
         (2, Stream 0 (Result 0 ''r0'')), (3, Render)]))) = Error
 \<and> status (ui (step 4
      (UploadSettled 0 (snd (uploadAllChunked
         \<lparr>uploadOutcome = (\<lambda>i. Some ''Upload failed: 503''), race = (\<lambda>a. 0),
            completeOutcome = None\<rparr>
         ''job-1''
         [\<lparr>name = ''a.png'', fsize = 1, ftype = ''image/png'', lastModified = 0, blob = []\<rparr>])))
      (run initialWorld
        [(0, Analyze [\<lparr>name = ''a.png'', fsize = 1, ftype = ''image/png'',
                        lastModified = 0, blob = []\<rparr>]),
         (1, CreateJobResolved 0 ''job-1'' None),
         (2, Stream 0 (Result 0 ''r0'')), (3, Render)]))) = Complete"
proof -
  let ?f = "\<lparr>name = ''a.png'', fsize = 1, ftype = ''image/png'', lastModified = 0, blob = []\<rparr>"
  let ?w = "run initialWorld
      [(0, Analyze [?f]), (1, CreateJobResolved 0 ''job-1'' None),
       (2, Stream 0 (Result 0 ''r0'')), (3, Render)]"
  let ?bad = "\<lparr>uploadOutcome = (\<lambda>i. None), race = (\<lambda>a. 0),
            completeOutcome = Some ''Complete failed: 500''\<rparr>"
  let ?good = "\<lparr>uploadOutcome = (\<lambda>i. Some ''Upload failed: 503''), race = (\<lambda>a. 0),
            completeOutcome = None\<rparr>"
  have p: "phaseOf ?w 0 = AwaitUpload"
    by code_simp
  have s: "status (ui ?w) = Complete"
    by code_simp
  from completeJob_failure_is_fatal [of ?bad "''job-1''" "[?f]" 4 0 ?w]
    completeJob_failure_is_fatal [of ?good "''job-1''" "[?f]" 4 0 ?w] p s
  show ?thesis
    by (simp add: Let_def)
qed

subsection \<open>Closed subscriptions\<close>

lemma closed_render: "j \<in> set (closed w) \<Longrightarrow> j \<in> set (closed (render now w))"
  by (auto simp: render_def completionEffect_def closeRef_simps split: option.splits)

lemma closed_dispatch: "j \<in> set (closed w) \<Longrightarrow> j \<in> set (closed (dispatch now e w))"
  by (cases e)
     (auto simp: dispatch_def Let_def closeRef_simps reset_def
        analyzeStart_def createJobResolved_def catchBlock_def setPhase_def onStream_def
        split: option.splits settled.splits streamEvent.splits)

lemma closed_step: "j \<in> set (closed w) \<Longrightarrow> j \<in> set (closed (step now e w))"
  by (simp add: step_def closed_render closed_dispatch)

lemma closed_run: "j \<in> set (closed w) \<Longrightarrow> j \<in> set (closed (run w es))"
  by (induction w es rule: run.induct) (simp_all add: closed_step)

lemma step_stream_closed: "j \<in> set (closed w) \<Longrightarrow> step now (Stream j ev) w = w"
  by (simp add: step_def dispatch_def live_def)

lemma closed_reset: "eventSourceRef (ui w) = Some j \<Longrightarrow> j \<in> set (closed (step now Reset w))"
proof -
  assume "eventSourceRef (ui w) = Some j"
  then have "j \<in> set (closed (dispatch now Reset w))"
    by (simp add: dispatch_def reset_def Let_def closeRef_simps)
  then show ?thesis
    by (simp add: step_userCall closed_render)
qed

lemma closed_analyze:
  "eventSourceRef (ui w) = Some j \<Longrightarrow> j \<in> set (closed (step now (Analyze fs) w))"
proof -
  assume "eventSourceRef (ui w) = Some j"
  then have "j \<in> set (closed (dispatch now (Analyze fs) w))"
    by (simp add: dispatch_def reset_def analyzeStart_def Let_def closeRef_simps)
  then show ?thesis
    by (simp add: step_userCall closed_render)
qed

text \<open>
  Claim C2, as amended. \<^verbatim>\<open>reset()\<close>, also as the first statement of \<^verbatim>\<open>analyze()\<close>,
  closes the subscription that the ref holds at that moment, and from then on, whatever
  happens in between, no stream event of that subscription changes anything.
\<close>

theorem closed_subscription_is_silent:
  "eventSourceRef (ui w) = Some j \<longrightarrow>
     (let w' = run (step t Reset w) es in step now (Stream j ev) w' = w')
   \<and> (let w' = run (step t (Analyze fs) w) es in step now (Stream j ev) w' = w')"
  using step_stream_closed [OF closed_run [OF closed_reset]]
    step_stream_closed [OF closed_run [OF closed_analyze]]
  by (simp add: Let_def)


text \<open>A job is streaming when \<^verbatim>\<open>reset()\<close> is called; a result of that job's stream
  that comes afterwards changes nothing.\<close>

theorem closed_subscription_is_silent_witness:
  "eventSourceRef (ui (run initialWorld
      [(0, Analyze [\<lparr>name = ''a.png'', fsize = 1, ftype = ''image/png'',
                      lastModified = 0, blob = []\<rparr>]),
       (1, CreateJobResolved 0 ''job-1'' None)])) = Some 0
 \<and> results (ui (step 9 (Stream 0 (Result 0 ''late''))
      (run (step 5 Reset (run initialWorld
        [(0, Analyze [\<lparr>name = ''a.png'', fsize = 1, ftype = ''image/png'',
                        lastModified = 0, blob = []\<rparr>]),
         (1, CreateJobResolved 0 ''job-1'' None)])) [(6, Render)]))) = []"
proof -
  let ?w = "run initialWorld
      [(0, Analyze [\<lparr>name = ''a.png'', fsize = 1, ftype = ''image/png'',
                      lastModified = 0, blob = []\<rparr>]),
       (1, CreateJobResolved 0 ''job-1'' None)]"
  have r: "eventSourceRef (ui ?w) = Some 0"
    by code_simp
  have e: "results (ui (run (step 5 Reset ?w) [(6, Render)])) = []"
    by code_simp
  from closed_subscription_is_silent [of ?w 0 5 "[(6, Render)]" 9 "Result 0 ''late''" "[]"] r e
  show ?thesis
    by (simp add: Let_def)
qed

text \<open>
  Claim C2, as stated, fails. \<^verbatim>\<open>analyze\<close> is called with one file and \<^verbatim>\<open>reset()\<close>
  follows while \<^verbatim>\<open>createJob\<close> is still pending: the status is \<open>Idle\<close>. When
  \<^verbatim>\<open>createJob\<close> then rejects, the \<^verbatim>\<open>catch\<close> block of the superseded call sets the status
  to \<open>Error\<close>; when it resolves instead, the superseded call opens its subscription, and
  a result of that stream is stored.
\<close>

theorem superseded_callback_counterexample:
  "status (ui (run initialWorld
      [(0, Analyze [\<lparr>name = ''a.png'', fsize = 1, ftype = ''image/png'',
                      lastModified = 0, blob = []\<rparr>]),
       (1, Reset)])) = Idle
 \<and> status (ui (run initialWorld
      [(0, Analyze [\<lparr>name = ''a.png'', fsize = 1, ftype = ''image/png'',
                      lastModified = 0, blob = []\<rparr>]),
       (1, Reset), (2, CreateJobRejected 0 ''Failed to fetch'')])) = Error
 \<and> results (ui (run initialWorld
      [(0, Analyze [\<lparr>name = ''a.png'', fsize = 1, ftype = ''image/png'',
                      lastModified = 0, blob = []\<rparr>]),
       (1, Reset), (2, CreateJobResolved 0 ''job-1'' None),
       (3, Stream 0 (Result 0 ''r0''))])) = [(0, Success ''r0'')]"
  by code_simp

subsection \<open>The transition to Complete\<close>

lemma dispatch_status_Complete:
  "status (ui (dispatch now e w)) = Complete \<Longrightarrow> status (ui w) = Complete"
  by (cases e)
     (auto simp: dispatch_def reset_def analyzeStart_def createJobResolved_def catchBlock_def
        setPhase_def onStream_def closeRef_simps Let_def
        split: if_splits option.splits settled.splits streamEvent.splits)

lemma completionEffect_result:
  assumes "completionDue (ui w)"
  shows "status (ui (completionEffect now w)) = Complete
    \<and> elapsedSeconds (ui (completionEffect now w))
        = (case startTimeRef (ui w) of
             Some t0 \<Rightarrow> if t0 \<noteq> 0 then Some (elapsed now t0) else elapsedSeconds (ui w)
           | None \<Rightarrow> elapsedSeconds (ui w))
    \<and> unmatchedCsvRows (ui (completionEffect now w))
        = (case donePayloadRef (ui w) of
             Some p \<Rightarrow> (case unmatched_csv_rows p of
                          Some rows \<Rightarrow> rows
                        | None \<Rightarrow> unmatchedCsvRows (ui w))
           | None \<Rightarrow> unmatchedCsvRows (ui w))
    \<and> eventSourceRef (ui (completionEffect now w)) = None
    \<and> (\<forall>j. eventSourceRef (ui w) = Some j \<longrightarrow> j \<in> set (closed (completionEffect now w)))"
  using assms by (simp add: completionEffect_def closeRef_simps)

lemma step_enters_Complete:
  assumes "status (ui (step now e w)) = Complete" and "status (ui w) \<noteq> Complete"
  shows "e = Render \<and> completionDue (ui w)"
proof (cases "e = Render")
  case True
  with assms show ?thesis
    by (auto simp: step_Render status_render split: if_splits)
next
  case nr: False
  show ?thesis
  proof (cases "isUserCall e")
    case True
    from userCall_notDue [OF True, of now w] assms step_userCall [OF True, of now w]
    have "status (ui (dispatch now e w)) = Complete"
      by (simp add: ui_render_notDue)
    with assms(2) dispatch_status_Complete show ?thesis by blast
  next
    case False
    with nr assms dispatch_status_Complete show ?thesis
      by (auto simp: step_other)
  qed
qed

lemma step_keeps_Complete:
  assumes "status (ui w) = Complete" "\<not> isUserCall e" "\<not> isRejection e"
  shows "status (ui (step now e w)) = Complete"
proof (cases "e = Render")
  case True
  with assms show ?thesis
    by (simp add: step_Render status_render)
next
  case False
  have "status (ui (dispatch now e w)) = Complete"
    using assms
    by (cases e rule: isRejection.cases)
       (auto simp: dispatch_def createJobResolved_def setPhase_def onStream_def Let_def
          split: streamEvent.splits)
  with False assms(2) show ?thesis
    by (simp add: step_other)
qed

lemma atRest_iff: "atRest w \<longleftrightarrow> \<not> (status (ui w) = Uploading \<or> status (ui w) = Streaming)"
  by (cases "status (ui w)") (simp_all add: atRest_def)

lemma step_atRest:
  assumes "atRest w" "\<not> isAnalyze e"
  shows "atRest (step now e w)
       \<and> (status (ui (step now e w)) = Complete \<longrightarrow> status (ui w) = Complete)"
proof -
  have d: "atRest (dispatch now e w)"
    using assms dispatch_busy [of now e w] unfolding atRest_iff by blast
  then have nd: "\<not> completionDue (ui (dispatch now e w))"
    by (auto simp: atRest_iff completionDue_def)
  have nd0: "\<not> completionDue (ui w)"
    using assms(1) by (auto simp: atRest_iff completionDue_def)
  have "ui (step now e w) = ui (dispatch now e w) \<or> ui (step now e w) = ui w"
    using nd nd0 by (auto simp: step_def ui_render_notDue)
  with d assms(1) dispatch_status_Complete [of now e w] show ?thesis
    by (auto simp: atRest_def)
qed

lemma completions_atRest:
  "atRest w \<Longrightarrow> list_all (\<lambda>(t, e). \<not> isAnalyze e) es \<Longrightarrow> completions w es = 0"
proof (induction w es rule: completions.induct)
  case (1 w)
  then show ?case by simp
next
  case (2 w now e es)
  then have "\<not> isAnalyze e" by simp
  from step_atRest [OF "2.prems"(1) this, of now] 2 show ?case
    by auto
qed

lemma completions_le_1:
  "list_all (\<lambda>(t, e). \<not> isAnalyze e) es \<Longrightarrow> completions w es \<le> 1"
proof (induction w es rule: completions.induct)
  case (1 w)
  then show ?case by simp
next
  case (2 w now e es)
  show ?case
  proof (cases "status (ui (step now e w)) = Complete \<and> status (ui w) \<noteq> Complete")
    case True
    then have "atRest (step now e w)"
      by (simp add: atRest_def)
    then have "completions (step now e w) es = 0"
      using "2.prems" by (simp add: completions_atRest)
    then show ?thesis by simp
  next
    case False
    then show ?thesis
      using 2 by auto
  qed
qed

text \<open>
  Claim C1, as amended. In every reachable state in which \<open>total_files > 0\<close>, the store
  holds at least \<open>total_files\<close> entries and the status is \<open>Uploading\<close> or
  \<open>Streaming\<close>, the next render sets the status to \<open>Complete\<close>, computes the elapsed
  seconds from the recorded start timestamp (if there is one), applies the unmatched rows of
  a stored \<^verbatim>\<open>done\<close> payload, and closes the subscription in the ref. The status becomes
  \<open>Complete\<close> in no other way. Once it is \<open>Complete\<close> it stays so under every step
  other than \<^verbatim>\<open>reset()\<close>, \<^verbatim>\<open>analyze()\<close> and a rejection reaching the \<^verbatim>\<open>catch\<close> block.
  Between two calls of \<^verbatim>\<open>analyze()\<close> the status becomes \<open>Complete\<close> at most once.
\<close>

theorem completion_fires_once:
  "let w = run initialWorld es; wr = step now Render w; w2 = step now e w in
     (completionDue (ui w) \<longrightarrow>
        status (ui wr) = Complete
      \<and> elapsedSeconds (ui wr)
          = (case startTimeRef (ui w) of
               Some t0 \<Rightarrow> if t0 \<noteq> 0 then Some (elapsed now t0) else elapsedSeconds (ui w)
             | None \<Rightarrow> elapsedSeconds (ui w))
      \<and> unmatchedCsvRows (ui wr)
          = (case donePayloadRef (ui w) of
               Some p \<Rightarrow> (case unmatched_csv_rows p of
                            Some rows \<Rightarrow> rows
                          | None \<Rightarrow> unmatchedCsvRows (ui w))
             | None \<Rightarrow> unmatchedCsvRows (ui w))
      \<and> eventSourceRef (ui wr) = None
      \<and> (\<forall>j. eventSourceRef (ui w) = Some j \<longrightarrow> j \<in> set (closed wr)))
   \<and> (status (ui w2) = Complete \<and> status (ui w) \<noteq> Complete
        \<longrightarrow> e = Render \<and> completionDue (ui w))
   \<and> (status (ui w) = Complete \<and> \<not> isUserCall e \<and> \<not> isRejection e
        \<longrightarrow> status (ui w2) = Complete)
   \<and> (list_all (\<lambda>(t, e). \<not> isAnalyze e) es' \<longrightarrow> completions w es' \<le> 1)"
proof -
  define w where "w = run initialWorld es"
  have inv: "renderInv w"
    unfolding w_def by (rule renderInv_run [OF renderInv_initial])
  have r: "step now Render w = (completionEffect now w)\<lparr>rendered := deps (ui w)\<rparr>"
    if "completionDue (ui w)"
    using render_due [OF inv that] by (simp add: step_Render)
  show ?thesis
    unfolding Let_def w_def [symmetric]
    using r completionEffect_result [of w now]
      step_enters_Complete [of now e w] step_keeps_Complete [of w e now]
      completions_le_1 [of es' w]
    by (intro conjI impI) auto
qed

text \<open>One file, analysed from time 1000; its result and the \<^verbatim>\<open>done\<close> event arrive
  before the render at time 3500.\<close>

theorem completion_fires_once_witness:
  "completionDue (ui (run initialWorld
      [(1000, Analyze [\<lparr>name = ''a.png'', fsize = 1, ftype = ''image/png'',
                         lastModified = 0, blob = []\<rparr>]),
       (1200, CreateJobResolved 0 ''job-1'' None),
       (3400, Stream 0 (Result 0 ''r0'')),
       (3401, Stream 0 (Done (Some \<lparr>unmatched_csv_rows = Some [''COLA-0009'']\<rparr>)))]))
 \<and> status (ui (step 3500 Render (run initialWorld
      [(1000, Analyze [\<lparr>name = ''a.png'', fsize = 1, ftype = ''image/png'',
                         lastModified = 0, blob = []\<rparr>]),
       (1200, CreateJobResolved 0 ''job-1'' None),
       (3400, Stream 0 (Result 0 ''r0'')),
       (3401, Stream 0 (Done (Some \<lparr>unmatched_csv_rows = Some [''COLA-0009'']\<rparr>)))])))
     = Complete
 \<and> elapsedSeconds (ui (step 3500 Render (run initialWorld
      [(1000, Analyze [\<lparr>name = ''a.png'', fsize = 1, ftype = ''image/png'',
                         lastModified = 0, blob = []\<rparr>]),
       (1200, CreateJobResolved 0 ''job-1'' None),
       (3400, Stream 0 (Result 0 ''r0'')),
       (3401, Stream 0 (Done (Some \<lparr>unmatched_csv_rows = Some [''COLA-0009'']\<rparr>)))])))
     = Some 3
 \<and> unmatchedCsvRows (ui (step 3500 Render (run initialWorld
      [(1000, Analyze [\<lparr>name = ''a.png'', fsize = 1, ftype = ''image/png'',
                         lastModified = 0, blob = []\<rparr>]),
       (1200, CreateJobResolved 0 ''job-1'' None),
       (3400, Stream 0 (Result 0 ''r0'')),
       (3401, Stream 0 (Done (Some \<lparr>unmatched_csv_rows = Some [''COLA-0009'']\<rparr>)))])))
     = [''COLA-0009'']
 \<and> completions (run initialWorld
      [(1000, Analyze [\<lparr>name = ''a.png'', fsize = 1, ftype = ''image/png'',
                         lastModified = 0, blob = []\<rparr>]),
       (1200, CreateJobResolved 0 ''job-1'' None),
       (3400, Stream 0 (Result 0 ''r0'')),
       (3401, Stream 0 (Done (Some \<lparr>unmatched_csv_rows = Some [''COLA-0009'']\<rparr>)))])
      [(3500, Render), (3600, UploadSettled 0 (Resolved ())), (3700, Render)] = 1"
proof -
  define es where "es =
      [(1000::rat, Analyze [\<lparr>name = ''a.png'', fsize = 1, ftype = ''image/png'',
                         lastModified = 0, blob = []\<rparr>]),
       (1200, CreateJobResolved 0 ''job-1'' None),
       (3400, Stream 0 (Result 0 ''r0'')),
       (3401, Stream 0 (Done (Some \<lparr>unmatched_csv_rows = Some [''COLA-0009'']\<rparr>)))]"
  define es' where "es' = [(3500, Render), (3600, UploadSettled 0 (Resolved ())), (3700::rat, Render)]"
  have d: "completionDue (ui (run initialWorld es))"
    unfolding es_def by code_simp
  have s: "startTimeRef (ui (run initialWorld es)) = Some 1000"
    unfolding es_def by code_simp
  have p: "donePayloadRef (ui (run initialWorld es))
      = Some \<lparr>unmatched_csv_rows = Some [''COLA-0009'']\<rparr>"
    unfolding es_def by code_simp
  have e: "elapsed 3500 1000 = 3"
    by code_simp
  have c: "completions (run initialWorld es) es' \<ge> 1"
    unfolding es_def es'_def by code_simp
  have n: "list_all (\<lambda>(t, e). \<not> isAnalyze e) es'"
    by (simp add: es'_def)
  have "status (ui (step 3500 Render (run initialWorld es))) = Complete
      \<and> elapsedSeconds (ui (step 3500 Render (run initialWorld es))) = Some 3
      \<and> unmatchedCsvRows (ui (step 3500 Render (run initialWorld es))) = [''COLA-0009'']
      \<and> completions (run initialWorld es) es' = 1"
    using completion_fires_once [of es 3500 Render es'] d s p e c n
    by (simp add: Let_def)
  with d show ?thesis
    unfolding es_def es'_def by blast
qed

text \<open>
  Claim C1, as stated, fails in one run. \<^verbatim>\<open>analyze([])\<close> leaves the status
  \<open>Uploading\<close> with the store's size, 0, already at \<open>total_files\<close>, 0, and the render
  does not complete: the effect asks for \<open>total > 0\<close>. After a \<^verbatim>\<open>meta\<close> event has set
  \<open>total_files\<close> to 1 and the one result has arrived, the render completes; the
  \<^verbatim>\<open>completeJob\<close> request failing after that sets the status to \<open>Error\<close>.
\<close>

theorem completion_counterexample:
  "status (ui (run initialWorld [(0, Analyze []), (1, Render)])) = Uploading
 \<and> total_files (ui (run initialWorld [(0, Analyze []), (1, Render)]))
     \<le> int (length (results (ui (run initialWorld [(0, Analyze []), (1, Render)]))))
 \<and> status (ui (run initialWorld
      [(0, Analyze []), (1, Render), (2, CreateJobResolved 0 ''job-1'' None),
       (3, Stream 0 (Meta 1)), (4, Stream 0 (Result 0 ''r0'')), (5, Render)])) = Complete
 \<and> status (ui (run initialWorld
      [(0, Analyze []), (1, Render), (2, CreateJobResolved 0 ''job-1'' None),
       (3, Stream 0 (Meta 1)), (4, Stream 0 (Result 0 ''r0'')), (5, Render),
       (6, UploadSettled 0 (Rejected ''Complete failed: 500''))])) = Error"
  by code_simp

subsection \<open>The size of the result store\<close>

lemma storeInv_size:
  assumes "storeInv h"
  shows "int (length (results h)) \<le> total_files h"
proof -
  have d: "distinct (map fst (results h))" and t: "0 \<le> total_files h"
    and r: "set (map fst (results h)) \<subseteq> {0 ..< total_files h}"
    using assms by (auto simp: storeInv_def list_all_iff)
  have "length (results h) = card (set (map fst (results h)))"
    using distinct_card [OF d] by simp
  also have "\<dots> \<le> card {0 ..< total_files h}"
    by (rule card_mono [OF _ r]) simp
  finally show ?thesis
    using t by simp
qed

lemma keys_update:
  "(\<forall>x \<in> set (AList.update k v al). P (fst x)) \<longleftrightarrow> P k \<and> (\<forall>x \<in> set al. P (fst x))"
  by (induction al) auto

lemma storeInv_update:
  assumes "storeInv h" "0 \<le> i" "i < total_files h"
  shows "storeInv (h\<lparr>results := AList.update i v (results h)\<rparr>)"
  using assms keys_update [of i v "results h" "\<lambda>j. 0 \<le> j \<and> j < total_files h"]
  by (simp add: storeInv_def distinct_update list_all_iff case_prod_beta)

lemma storeInv_dispatch:
  assumes "storeInv (ui w)" "eventOk w e"
  shows "storeInv (ui (dispatch now e w))"
proof (cases e)
  case (Analyze fs)
  then show ?thesis
    by (simp add: dispatch_def analyzeStart_def reset_def closeRef_simps Let_def storeInv_def)
next
  case Reset
  then show ?thesis
    by (simp add: dispatch_def reset_def closeRef_simps Let_def storeInv_def)
next
  case (CreateJobResolved k job dups)
  with assms show ?thesis
    by (simp add: dispatch_def createJobResolved_def setPhase_def Let_def storeInv_def)
next
  case (CreateJobRejected k msg)
  with assms show ?thesis
    by (simp add: dispatch_def catchBlock_def setPhase_def closeRef_simps storeInv_def)
next
  case (UploadSettled k out)
  with assms show ?thesis
    by (cases out)
       (simp_all add: dispatch_def catchBlock_def setPhase_def closeRef_simps storeInv_def)
next
  case (Stream k ev)
  show ?thesis
  proof (cases "live w k")
    case False
    with assms Stream show ?thesis by (simp add: dispatch_def)
  next
    case True
    show ?thesis
    proof (cases ev)
      case (Meta t)
      with assms Stream True show ?thesis
        by (auto simp: dispatch_def onStream_def storeInv_def list_all_iff)
    next
      case (Result i p)
      with assms Stream True storeInv_update [of "ui w" i "Success p"] show ?thesis
        by (auto simp: dispatch_def onStream_def storeInv_def)
    next
      case (ItemError i p)
      with assms Stream True storeInv_update [of "ui w" i "Failure p"] show ?thesis
        by (auto simp: dispatch_def onStream_def storeInv_def)
    next
      case (Done d)
      with assms Stream True show ?thesis
        by (simp add: dispatch_def onStream_def storeInv_def)
    next
      case (ConnectionError gone)
      with assms Stream True show ?thesis
        by (simp add: dispatch_def onStream_def storeInv_def)
    qed
  qed
next
  case Render
  with assms show ?thesis by (simp add: dispatch_def)
qed

lemma storeInv_render: "storeInv (ui w) \<Longrightarrow> storeInv (ui (render now w))"
  by (simp add: render_def completionEffect_def closeRef_simps storeInv_def)

lemma storeInv_step:
  assumes "storeInv (ui w)" "eventOk w e"
  shows "storeInv (ui (step now e w))"
  using assms by (simp add: step_def storeInv_render storeInv_dispatch)

lemma storeInv_run: "storeInv (ui w) \<Longrightarrow> eventsOk w es \<Longrightarrow> storeInv (ui (run w es))"
  by (induction w es rule: run.induct) (simp_all add: storeInv_step)

lemma storeInv_initial: "storeInv (ui initialWorld)"
  by (simp add: storeInv_def initialWorld_def initialHook_def)

text \<open>
  Claim C4, as amended. Progress is the size of the store. In every state reachable by
  events that keep to the job (client indices from 0 up to, not including,
  \<open>total_files\<close>; no \<^verbatim>\<open>meta\<close> event with a negative \<open>total_files\<close> or one at or
  below a stored client index), the size of the store is at most \<open>total_files\<close>.
\<close>

theorem store_within_total:
  "eventsOk initialWorld es \<longrightarrow>
   (let w = run initialWorld es in
      int (length (results (ui w))) \<le> total_files (ui w)
    \<and> progress (ui w) = length (results (ui w)))"
  using storeInv_size [OF storeInv_run [OF storeInv_initial, of es]]
  by (simp add: progress_def)

text \<open>Two files; the server confirms the total, one item succeeds and one fails.\<close>

theorem store_within_total_witness:
  "eventsOk initialWorld
      [(0, Analyze [\<lparr>name = ''a.png'', fsize = 1, ftype = ''image/png'',
                      lastModified = 0, blob = []\<rparr>,
                    \<lparr>name = ''b.png'', fsize = 1, ftype = ''image/png'',
                      lastModified = 0, blob = []\<rparr>]),
       (1, CreateJobResolved 0 ''job-1'' None), (2, Stream 0 (Meta 2)),
       (3, Stream 0 (Result 1 ''r1'')), (4, Stream 0 (ItemError 0 ''e0'')), (5, Render)]
 \<and> progress (ui (run initialWorld
      [(0, Analyze [\<lparr>name = ''a.png'', fsize = 1, ftype = ''image/png'',
                      lastModified = 0, blob = []\<rparr>,
                    \<lparr>name = ''b.png'', fsize = 1, ftype = ''image/png'',
                      lastModified = 0, blob = []\<rparr>]),
       (1, CreateJobResolved 0 ''job-1'' None), (2, Stream 0 (Meta 2)),
       (3, Stream 0 (Result 1 ''r1'')), (4, Stream 0 (ItemError 0 ''e0'')), (5, Render)])) = 2
 \<and> int (length (results (ui (run initialWorld
      [(0, Analyze [\<lparr>name = ''a.png'', fsize = 1, ftype = ''image/png'',
                      lastModified = 0, blob = []\<rparr>,
                    \<lparr>name = ''b.png'', fsize = 1, ftype = ''image/png'',
                      lastModified = 0, blob = []\<rparr>]),
       (1, CreateJobResolved 0 ''job-1'' None), (2, Stream 0 (Meta 2)),
       (3, Stream 0 (Result 1 ''r1'')), (4, Stream 0 (ItemError 0 ''e0'')), (5, Render)]))))
    \<le> total_files (ui (run initialWorld
      [(0, Analyze [\<lparr>name = ''a.png'', fsize = 1, ftype = ''image/png'',
                      lastModified = 0, blob = []\<rparr>,
                    \<lparr>name = ''b.png'', fsize = 1, ftype = ''image/png'',
                      lastModified = 0, blob = []\<rparr>]),
       (1, CreateJobResolved 0 ''job-1'' None), (2, Stream 0 (Meta 2)),
       (3, Stream 0 (Result 1 ''r1'')), (4, Stream 0 (ItemError 0 ''e0'')), (5, Render)]))"
proof -
  let ?es = "[(0, Analyze [\<lparr>name = ''a.png'', fsize = 1, ftype = ''image/png'',
                      lastModified = 0, blob = []\<rparr>,
                    \<lparr>name = ''b.png'', fsize = 1, ftype = ''image/png'',
                      lastModified = 0, blob = []\<rparr>]),
       (1, CreateJobResolved 0 ''job-1'' None), (2, Stream 0 (Meta 2)),
       (3, Stream 0 (Result 1 ''r1'')), (4, Stream 0 (ItemError 0 ''e0'')), (5, Render)]"
  have ok: "eventsOk initialWorld ?es"
    by code_simp
  have n: "length (results (ui (run initialWorld ?es))) = 2"
    by code_simp
  from store_within_total [of ?es] ok n
  show ?thesis
    by (simp add: Let_def)
qed

text \<open>
  Claim C4, as stated, fails. With three files and two results stored, a \<^verbatim>\<open>meta\<close> event
  carrying \<open>total_files = 1\<close> leaves a store of size 2 above the total of 1. With one
  file, a \<^verbatim>\<open>meta\<close> event carrying \<open>total_files = 0\<close> followed by a result leaves a store of
  size 1 above the total of 0, and no render completes the run.
\<close>

theorem store_exceeds_total_counterexample:
  "length (results (ui (run initialWorld
      [(0, Analyze [\<lparr>name = ''a.png'', fsize = 1, ftype = ''image/png'',
                      lastModified = 0, blob = []\<rparr>,
                    \<lparr>name = ''b.png'', fsize = 1, ftype = ''image/png'',
                      lastModified = 0, blob = []\<rparr>,
                    \<lparr>name = ''c.png'', fsize = 1, ftype = ''image/png'',
                      lastModified = 0, blob = []\<rparr>]),
       (1, CreateJobResolved 0 ''job-1'' None),
       (2, Stream 0 (Result 0 ''r0'')), (3, Render),
       (4, Stream 0 (Result 1 ''r1'')), (5, Render),
       (6, Stream 0 (Meta 1))]))) = 2
 \<and> total_files (ui (run initialWorld
      [(0, Analyze [\<lparr>name = ''a.png'', fsize = 1, ftype = ''image/png'',
                      lastModified = 0, blob = []\<rparr>,
                    \<lparr>name = ''b.png'', fsize = 1, ftype = ''image/png'',
                      lastModified = 0, blob = []\<rparr>,
                    \<lparr>name = ''c.png'', fsize = 1, ftype = ''image/png'',
                      lastModified = 0, blob = []\<rparr>]),
       (1, CreateJobResolved 0 ''job-1'' None),
       (2, Stream 0 (Result 0 ''r0'')), (3, Render),
       (4, Stream 0 (Result 1 ''r1'')), (5, Render),
       (6, Stream 0 (Meta 1))])) = 1
 \<and> length (results (ui (run initialWorld
      [(0, Analyze [\<lparr>name = ''a.png'', fsize = 1, ftype = ''image/png'',
                      lastModified = 0, blob = []\<rparr>]),
       (1, CreateJobResolved 0 ''job-1'' None),
       (2, Stream 0 (Meta 0)), (3, Render),
       (4, Stream 0 (Result 0 ''r0'')), (5, Render)]))) = 1
 \<and> total_files (ui (run initialWorld
      [(0, Analyze [\<lparr>name = ''a.png'', fsize = 1, ftype = ''image/png'',
                      lastModified = 0, blob = []\<rparr>]),
       (1, CreateJobResolved 0 ''job-1'' None),
       (2, Stream 0 (Meta 0)), (3, Render),
       (4, Stream 0 (Result 0 ''r0'')), (5, Render)])) = 0"
  by code_simp

end
